theory Spec2Isabelle
  imports Complex_Main
begin

section \<open>Data model of \<open>xl.py\<close>\<close>

text \<open>
  A pandas cell is a number, a piece of text, or missing (\<open>NaN\<close>/\<open>None\<close>).
  A number is kept as the rational it denotes, be it a Python int or a double; the
  operations on doubles round their results, see \<open>fl\<close> below.
\<close>

datatype cell = Num rat | Txt string | Missing

text \<open>
  A column label is an integer (\<open>read_csv(..., header=None)\<close> numbers the columns) or
  a string (a spreadsheet header, or one of the names built by an f-string).
\<close>

datatype label = IntLabel int | StrLabel string

text \<open>
  The exceptions the class can raise: \<open>list.index\<close> on an absent label, a comparison
  of text with \<open>0\<close>, a division by \<open>0\<close>, and a label looked up in a frame that
  does not have it.
\<close>

datatype error = ValueError | TypeError | ZeroDivisionError | KeyError

text \<open>
  A data frame: the length of its row index and its columns, in order, each a label
  with its cells. The frames the application builds (\<open>read_csv\<close>, \<open>read_excel\<close>)
  have pairwise distinct labels and columns of \<open>index_len\<close> cells; \<open>wf_df\<close> says so.
\<close>

record dataframe =
  index_len :: nat
  data :: "(label \<times> cell list) list"

definition columns :: "dataframe \<Rightarrow> label list" where
  "columns df = map fst (data df)"

definition len_df :: "dataframe \<Rightarrow> nat" where
  "len_df df = index_len df"

definition wf_df :: "dataframe \<Rightarrow> bool" where
  "wf_df df \<longleftrightarrow>
     distinct (columns df) \<and> list_all (\<lambda>c. length (snd c) = index_len df) (data df)"

section \<open>\<open>find_weight_column\<close>\<close>

text \<open>
  \<open>pd.to_numeric(series, errors='coerce')\<close> keeps a number, turns a missing cell into
  \<open>NaN\<close>, and parses text, giving \<open>NaN\<close> where the text is not a number. The parser
  is pandas' own; it is the parameter \<open>parse\<close>.
\<close>

definition to_numeric :: "(string \<Rightarrow> rat option) \<Rightarrow> cell \<Rightarrow> rat option" where
  "to_numeric parse c = (case c of Num q \<Rightarrow> Some q | Txt s \<Rightarrow> parse s | Missing \<Rightarrow> None)"

text \<open>\<open>pd.to_numeric(df[col], errors='coerce').notna().sum()\<close>\<close>

definition notna_sum :: "(string \<Rightarrow> rat option) \<Rightarrow> cell list \<Rightarrow> nat" where
  "notna_sum parse cells = length (filter (\<lambda>c. to_numeric parse c \<noteq> None) cells)"

text \<open>
  The loop \<open>for col in df.columns\<close>, with the two variables \<open>weight_column\<close> and
  \<open>max_numbers\<close> as the accumulator. \<open>df[col]\<close> is the column that carries the label.
\<close>

fun find_loop ::
  "(string \<Rightarrow> rat option) \<Rightarrow> (label \<times> cell list) list \<Rightarrow> label option \<times> nat
     \<Rightarrow> label option \<times> nat" where
  "find_loop parse [] acc = acc"
| "find_loop parse ((col, cells) # rest) (weight_column, max_numbers) =
     (let numeric_count = notna_sum parse cells in
      if numeric_count > max_numbers
      then find_loop parse rest (Some col, numeric_count)
      else find_loop parse rest (weight_column, max_numbers))"

definition find_weight_column ::
  "(string \<Rightarrow> rat option) \<Rightarrow> dataframe \<Rightarrow> label option \<times> nat" where
  "find_weight_column parse df = find_loop parse (data df) (None, 0)"

section \<open>\<open>shift_columns_and_create_containers\<close>\<close>

text \<open>\<open>list.index\<close>: the position of the first occurrence, or \<open>ValueError\<close>.\<close>

fun index_of :: "'a list \<Rightarrow> 'a \<Rightarrow> nat option" where
  "index_of [] x = None"
| "index_of (y # ys) x =
     (if y = x then Some 0 else (case index_of ys x of None \<Rightarrow> None | Some k \<Rightarrow> Some (Suc k)))"

text \<open>
  The decimal rendering an f-string gives a non-negative integer. Every number the
  function formats is one: \<open>i + 1\<close> with \<open>i\<close> from \<open>range\<close>, and a
  position plus a positive shift.
\<close>

definition digit_char :: "nat \<Rightarrow> char" where
  "digit_char d = ''0123456789'' ! d"

fun str_nat :: "nat \<Rightarrow> string" where
  "str_nat n = (if n < 10 then [digit_char n] else str_nat (n div 10) @ [digit_char (n mod 10)])"

declare str_nat.simps [simp del]

text \<open>\<open>f'Container_{i+1}'\<close> and \<open>f'Column_{k}'\<close>\<close>

definition container_name :: "nat \<Rightarrow> label" where
  "container_name i = StrLabel (''Container_'' @ str_nat (i + 1))"

definition column_name :: "nat \<Rightarrow> label" where
  "column_name k = StrLabel (''Column_'' @ str_nat k)"

text \<open>
  \<open>new_columns[key] = value\<close> on a Python dict, which keeps insertion order: a key
  already present keeps its place and takes the new value, a new key goes last.
\<close>

fun dict_set :: "('k \<times> 'v) list \<Rightarrow> 'k \<Rightarrow> 'v \<Rightarrow> ('k \<times> 'v) list" where
  "dict_set [] k v = [(k, v)]"
| "dict_set ((k', v') # d) k v = (if k' = k then (k, v) # d else (k', v') # dict_set d k v)"

text \<open>
  The first loop, \<open>for i in range(user_defined_containers)\<close>, and the second,
  \<open>for i, col in enumerate(df.columns)\<close>, each threading the dict \<open>new_columns\<close>.
\<close>

definition add_containers :: "nat \<Rightarrow> nat \<Rightarrow> (label \<times> cell list) list \<Rightarrow> (label \<times> cell list) list" where
  "add_containers user_defined_containers rows new_columns =
     fold (\<lambda>i d. dict_set d (container_name i) (replicate rows (Num 0)))
       [0..<user_defined_containers] new_columns"

definition add_shifted :: "nat \<Rightarrow> (label \<times> cell list) list \<Rightarrow> (label \<times> cell list) list \<Rightarrow> (label \<times> cell list) list" where
  "add_shifted shift_amount cols new_columns =
     fold (\<lambda>(i, col) d. dict_set d (column_name (i + shift_amount)) (snd col))
       (enumerate 0 cols) new_columns"

text \<open>
  \<open>user_defined_containers\<close> is a Python int; nothing in the method restricts its sign.
  In the first branch \<open>weight_col_index < user_defined_containers\<close>, so the count and
  the shift are positive and \<open>nat\<close> loses nothing. \<open>df.copy()\<close> has the columns
  and cells of \<open>df\<close>.
\<close>

definition shift_columns_and_create_containers ::
  "dataframe \<Rightarrow> label \<Rightarrow> int \<Rightarrow> error + (dataframe \<times> label \<times> label list)" where
  "shift_columns_and_create_containers df weight_column user_defined_containers =
     (case index_of (columns df) weight_column of
        None \<Rightarrow> Inl ValueError
      | Some weight_col_index \<Rightarrow>
          if int weight_col_index < user_defined_containers then
            let shift_amount = nat (user_defined_containers - int weight_col_index);
                new_columns = add_containers (nat user_defined_containers) (len_df df) [];
                new_columns = add_shifted shift_amount (data df) new_columns;
                new_df = \<lparr>index_len = len_df df, data = new_columns\<rparr>;
                weight_column_new = column_name (weight_col_index + shift_amount);
                container_columns = map container_name [0..<nat user_defined_containers]
            in Inr (new_df, weight_column_new, container_columns)
          else
            let container_columns = take weight_col_index (columns df)
            in Inr (df, weight_column, container_columns))"

section \<open>\<open>distribute_weight\<close> and \<open>process_dataframe\<close>\<close>

text \<open>
  Python floats are IEEE doubles: 53 significant bits, results rounded to the nearest
  double, a tie going to the even significand. \<open>bit_length n\<close> is the number of
  bits of \<open>n\<close>, \<open>pow2 e\<close> is \<open>2\<close> to the power \<open>e\<close>, and \<open>floor_log2 q\<close> is the
  exponent \<open>e\<close> with \<open>2^e \<le> q < 2^(e+1)\<close> of a positive \<open>q\<close>.
\<close>

fun bit_length :: "nat \<Rightarrow> nat" where
  "bit_length n = (if n = 0 then 0 else Suc (bit_length (n div 2)))"

declare bit_length.simps [simp del]

definition pow2 :: "int \<Rightarrow> rat" where
  "pow2 e = (if 0 \<le> e then 2 ^ nat e else 1 / 2 ^ nat (- e))"

definition floor_log2 :: "rat \<Rightarrow> int" where
  "floor_log2 q =
     (case quotient_of q of (a, b) \<Rightarrow>
        let d = int (bit_length (nat a)) - int (bit_length (nat b))
        in if pow2 d \<le> q then d else d - 1)"

text \<open>The nearest integer, a tie going to the even one.\<close>

definition round_half_even :: "rat \<Rightarrow> int" where
  "round_half_even x =
     (let f = \<lfloor>x\<rfloor>; r = x - of_int f in
      if r < 1 / 2 then f
      else if 1 / 2 < r then f + 1
      else if even f then f else f + 1)"

text \<open>
  The double nearest to \<open>q\<close>: \<open>q\<close> is rounded to a multiple of the unit in the last
  of its 53 bits. The range of the exponent is not modelled: no overflow to infinity
  and no subnormal numbers.
\<close>

definition fl :: "rat \<Rightarrow> rat" where
  "fl q =
     (if q = 0 then 0
      else let ulp = pow2 (floor_log2 \<bar>q\<bar> - 52)
           in of_int (round_half_even (q / ulp)) * ulp)"

text \<open>
  \<open>weight / num_containers\<close> is the true division of Python, of a float or an int
  by an int: the double nearest to the quotient.
\<close>

definition fdiv :: "rat \<Rightarrow> rat \<Rightarrow> rat" where
  "fdiv a b = fl (a / b)"

text \<open>
  \<open>round(x, 2)\<close> on a float: the exact value of \<open>x\<close> is rounded to the nearest
  multiple of \<open>1/100\<close>, a tie going to the even one, and the double nearest to that
  decimal is returned.
\<close>

definition nearest_hundredth :: "rat \<Rightarrow> rat" where
  "nearest_hundredth x = of_int (round_half_even (x * 100)) / 100"

definition py_round2 :: "rat \<Rightarrow> rat" where
  "py_round2 x = fl (nearest_hundredth x)"

text \<open>
  \<open>pd.isna(weight) or weight <= 0\<close>: a missing cell is caught by \<open>isna\<close>; text is
  not missing, and comparing it with \<open>0\<close> raises \<open>TypeError\<close>. A positive weight is
  divided by \<open>num_containers\<close>, which raises when that is \<open>0\<close>.
\<close>

definition distribute_weight :: "cell \<Rightarrow> nat \<Rightarrow> error + cell list" where
  "distribute_weight weight num_containers =
     (case weight of
        Missing \<Rightarrow> Inr (replicate num_containers (Num 0))
      | Txt s \<Rightarrow> Inl TypeError
      | Num w \<Rightarrow>
          if w \<le> 0 then Inr (replicate num_containers (Num 0))
          else if num_containers = 0 then Inl ZeroDivisionError
          else
            let weight_per_container = py_round2 (fdiv w (of_nat num_containers))
            in Inr (replicate num_containers (Num weight_per_container)))"

text \<open>
  \<open>processed_df.at[i, container_col] = value\<close>: the cell in row \<open>i\<close> of the column
  labelled \<open>container_col\<close> is replaced. A label the frame does not have makes pandas
  add a column, missing everywhere but in row \<open>i\<close>. Row \<open>i\<close> comes from enumerating
  a column of the same frame, so it is a row of the frame. The model has no column
  types: a cell takes the value whatever the column held before.
\<close>

fun set_cell :: "(label \<times> cell list) list \<Rightarrow> nat \<Rightarrow> nat \<Rightarrow> label \<Rightarrow> cell \<Rightarrow> (label \<times> cell list) list" where
  "set_cell [] rows i c v = [(c, (replicate rows Missing)[i := v])]"
| "set_cell ((c', cells) # d) rows i c v =
     (if c' = c then (c', cells[i := v]) # d else (c', cells) # set_cell d rows i c v)"

definition set_at :: "dataframe \<Rightarrow> nat \<Rightarrow> label \<Rightarrow> cell \<Rightarrow> dataframe" where
  "set_at df i c v = df\<lparr>data := set_cell (data df) (index_len df) i c v\<rparr>"

text \<open>The inner loop \<open>for j, container_col in enumerate(container_columns)\<close>.\<close>

definition write_row :: "dataframe \<Rightarrow> nat \<Rightarrow> label list \<Rightarrow> cell list \<Rightarrow> dataframe" where
  "write_row processed_df i container_columns distribution =
     fold (\<lambda>(j, container_col) d. set_at d i container_col (distribution ! j))
       (enumerate 0 container_columns) processed_df"

text \<open>
  The outer loop \<open>for i, weight in enumerate(processed_df[final_weight_column])\<close>, with
  the frame and \<open>processed_rows\<close> as the state. \<open>pd.notna(weight) and weight > 0\<close>
  is false on a missing cell, raises \<open>TypeError\<close> on text, and compares a number.
\<close>

fun distribute_rows ::
  "(nat \<times> cell) list \<Rightarrow> label list \<Rightarrow> dataframe \<Rightarrow> nat \<Rightarrow> error + (dataframe \<times> nat)" where
  "distribute_rows [] container_columns processed_df processed_rows =
     Inr (processed_df, processed_rows)"
| "distribute_rows ((i, weight) # rest) container_columns processed_df processed_rows =
     (case weight of
        Missing \<Rightarrow> distribute_rows rest container_columns processed_df processed_rows
      | Txt s \<Rightarrow> Inl TypeError
      | Num w \<Rightarrow>
          if 0 < w then
            (case distribute_weight weight (length container_columns) of
               Inl e \<Rightarrow> Inl e
             | Inr distribution \<Rightarrow>
                 distribute_rows rest container_columns
                   (write_row processed_df i container_columns distribution)
                   (processed_rows + 1))
          else distribute_rows rest container_columns processed_df processed_rows)"

text \<open>
  Lines 82 to 88 of \<open>process_dataframe\<close>: the weight column is read by its label
  (\<open>KeyError\<close> when the frame has no such column), then the loop runs from
  \<open>processed_rows = 0\<close>.
\<close>

definition distribute_weights ::
  "dataframe \<Rightarrow> label \<Rightarrow> label list \<Rightarrow> error + (dataframe \<times> nat)" where
  "distribute_weights processed_df final_weight_column container_columns =
     (case map_of (data processed_df) final_weight_column of
        None \<Rightarrow> Inl KeyError
      | Some weights \<Rightarrow>
          distribute_rows (enumerate 0 weights) container_columns processed_df 0)"

text \<open>
  \<open>process_dataframe\<close> returns \<open>None\<close> (after the message
  \<open>No numeric column found for weights!\<close>) when no weight column is found, and the
  triple otherwise. The messages sent to the page are not part of the model.
\<close>

definition process_dataframe ::
  "(string \<Rightarrow> rat option) \<Rightarrow> dataframe \<Rightarrow> int
     \<Rightarrow> error + (dataframe \<times> label \<times> label list) option" where
  "process_dataframe parse df user_defined_containers =
     (case find_weight_column parse df of
        (None, weight_count) \<Rightarrow> Inr None
      | (Some weight_column, weight_count) \<Rightarrow>
          (case shift_columns_and_create_containers df weight_column user_defined_containers of
             Inl e \<Rightarrow> Inl e
           | Inr (processed_df, final_weight_column, container_columns) \<Rightarrow>
               (case distribute_weights processed_df final_weight_column container_columns of
                  Inl e \<Rightarrow> Inl e
                | Inr (processed_df', processed_rows) \<Rightarrow>
                    Inr (Some (processed_df', final_weight_column, container_columns)))))"

section \<open>Frames as objects\<close>

text \<open>
  A Python variable holds a reference to a frame. The store lists the frames that
  exist; an address is a position in it. \<open>pd.DataFrame(new_columns)\<close> and
  \<open>df.copy()\<close> both make a new object: the constructor copies the arrays of a dict
  it is given, and \<open>copy\<close> is deep by default.
\<close>

type_synonym store = "dataframe list"

definition new_object :: "store \<Rightarrow> dataframe \<Rightarrow> store \<times> nat" where
  "new_object h t = (h @ [t], length h)"

text \<open>The method on references: it reads the frame at \<open>df\<close> and returns a new object.\<close>

definition shift_columns_and_create_containers_ref ::
  "store \<Rightarrow> nat \<Rightarrow> label \<Rightarrow> int \<Rightarrow> error + (store \<times> nat \<times> label \<times> label list)" where
  "shift_columns_and_create_containers_ref h df weight_column user_defined_containers =
     (case shift_columns_and_create_containers (h ! df) weight_column user_defined_containers of
        Inl e \<Rightarrow> Inl e
      | Inr (t, final_weight_column, container_columns) \<Rightarrow>
          (case new_object h t of
             (h', r) \<Rightarrow> Inr (h', r, final_weight_column, container_columns)))"

text \<open>\<open>processed_df.at[i, c] = v\<close>, written through the reference \<open>r\<close>.\<close>

definition set_at_ref :: "store \<Rightarrow> nat \<Rightarrow> nat \<Rightarrow> label \<Rightarrow> cell \<Rightarrow> store" where
  "set_at_ref h r i c v = h[r := set_at (h ! r) i c v]"

text \<open>
  The inner loop, the outer loop and the method, every write going through the reference
  \<open>processed_df\<close>. The method returns the reference of the frame it filled.
\<close>

definition write_row_ref :: "store \<Rightarrow> nat \<Rightarrow> nat \<Rightarrow> label list \<Rightarrow> cell list \<Rightarrow> store" where
  "write_row_ref h processed_df i container_columns distribution =
     fold (\<lambda>(j, container_col) h. set_at_ref h processed_df i container_col (distribution ! j))
       (enumerate 0 container_columns) h"

fun distribute_rows_ref ::
  "(nat \<times> cell) list \<Rightarrow> label list \<Rightarrow> store \<Rightarrow> nat \<Rightarrow> nat \<Rightarrow> error + (store \<times> nat)" where
  "distribute_rows_ref [] container_columns h processed_df processed_rows =
     Inr (h, processed_rows)"
| "distribute_rows_ref ((i, weight) # rest) container_columns h processed_df processed_rows =
     (case weight of
        Missing \<Rightarrow> distribute_rows_ref rest container_columns h processed_df processed_rows
      | Txt s \<Rightarrow> Inl TypeError
      | Num w \<Rightarrow>
          if 0 < w then
            (case distribute_weight weight (length container_columns) of
               Inl e \<Rightarrow> Inl e
             | Inr distribution \<Rightarrow>
                 distribute_rows_ref rest container_columns
                   (write_row_ref h processed_df i container_columns distribution)
                   processed_df (processed_rows + 1))
          else distribute_rows_ref rest container_columns h processed_df processed_rows)"

definition process_dataframe_ref ::
  "(string \<Rightarrow> rat option) \<Rightarrow> store \<Rightarrow> nat \<Rightarrow> int
     \<Rightarrow> error + (store \<times> (nat \<times> label \<times> label list) option)" where
  "process_dataframe_ref parse h df user_defined_containers =
     (case find_weight_column parse (h ! df) of
        (None, weight_count) \<Rightarrow> Inr (h, None)
      | (Some weight_column, weight_count) \<Rightarrow>
          (case shift_columns_and_create_containers_ref h df weight_column
                  user_defined_containers of
             Inl e \<Rightarrow> Inl e
           | Inr (h, processed_df, final_weight_column, container_columns) \<Rightarrow>
               (case map_of (data (h ! processed_df)) final_weight_column of
                  None \<Rightarrow> Inl KeyError
                | Some weights \<Rightarrow>
                    (case distribute_rows_ref (enumerate 0 weights) container_columns
                            h processed_df 0 of
                       Inl e \<Rightarrow> Inl e
                     | Inr (h, processed_rows) \<Rightarrow>
                         Inr (h, Some (processed_df, final_weight_column, container_columns))))))"

section \<open>Notions used in the statements\<close>

text \<open>
  \<open>col\<close> is the leftmost column of \<open>xs\<close> whose numeric count is the greatest, and
  \<open>m\<close> is that count: every column before it has a smaller count, none after it a
  greater one.
\<close>

definition leftmost_max ::
  "(string \<Rightarrow> rat option) \<Rightarrow> (label \<times> cell list) list \<Rightarrow> label \<Rightarrow> nat \<Rightarrow> bool" where
  "leftmost_max parse xs col m \<longleftrightarrow>
     (\<exists>pre cells post. xs = pre @ (col, cells) # post
        \<and> m = notna_sum parse cells
        \<and> (\<forall>c\<in>set pre. notna_sum parse (snd c) < m)
        \<and> (\<forall>c\<in>set post. notna_sum parse (snd c) \<le> m))"

text \<open>
  Reading a decimal numeral back: the value of a digit and of a string of digits. It
  serves to show that \<open>str_nat\<close> names different numbers differently.
\<close>

definition digit_val :: "char \<Rightarrow> nat" where
  "digit_val c = length (takeWhile (\<lambda>d. d \<noteq> c) ''0123456789'')"

definition nat_of_str :: "string \<Rightarrow> nat" where
  "nat_of_str s = foldl (\<lambda>a c. 10 * a + digit_val c) 0 s"

text \<open>The position of the weight column in the frame a reshaping returns.\<close>

definition weight_position :: "error + (dataframe \<times> label \<times> label list) \<Rightarrow> nat option" where
  "weight_position r =
     (case r of Inl e \<Rightarrow> None | Inr (new_df, w, cs) \<Rightarrow> index_of (columns new_df) w)"

text \<open>
  The cell in row \<open>i\<close> of the column labelled \<open>c\<close>, the number in a cell, and the
  sum of the numbers a row holds in the columns \<open>cs\<close>.
\<close>

definition cell_at :: "dataframe \<Rightarrow> label \<Rightarrow> nat \<Rightarrow> cell option" where
  "cell_at df c i =
     (case map_of (data df) c of
        None \<Rightarrow> None
      | Some cells \<Rightarrow> if i < length cells then Some (cells ! i) else None)"

definition number_of :: "cell option \<Rightarrow> rat" where
  "number_of c = (case c of Some (Num q) \<Rightarrow> q | _ \<Rightarrow> 0)"

definition container_sum :: "dataframe \<Rightarrow> label list \<Rightarrow> nat \<Rightarrow> rat" where
  "container_sum df cs i = sum_list (map (\<lambda>c. number_of (cell_at df c i)) cs)"

text \<open>A weight cell the loop acts on: a number greater than \<open>0\<close>.\<close>

definition positive :: "cell \<Rightarrow> bool" where
  "positive c = (case c of Num q \<Rightarrow> 0 < q | Txt s \<Rightarrow> False | Missing \<Rightarrow> False)"

text \<open>
  \<open>d'\<close> has the columns of \<open>d\<close>, with the same labels and lengths, and the same
  cells everywhere but in the rows \<open>R\<close> of the columns labelled in \<open>C\<close>.
\<close>

definition same_except ::
  "label set \<Rightarrow> nat set \<Rightarrow> (label \<times> cell list) list \<Rightarrow> (label \<times> cell list) list \<Rightarrow> bool" where
  "same_except C R d d' \<longleftrightarrow>
     map fst d' = map fst d \<and> map (\<lambda>c. length (snd c)) d' = map (\<lambda>c. length (snd c)) d \<and>
     (\<forall>k<length d. \<forall>j. fst (d ! k) \<notin> C \<or> j \<notin> R \<longrightarrow> snd (d' ! k) ! j = snd (d ! k) ! j)"

section \<open>Example frames\<close>

text \<open>Three columns; \<open>B\<close> and \<open>C\<close> tie with two numbers each, \<open>A\<close> has one.\<close>

definition tie_frame :: dataframe where
  "tie_frame = \<lparr>index_len = 2, data = [(StrLabel ''A'', [Txt ''x'', Num 1]), (StrLabel ''B'', [Num 3, Num 4]), (StrLabel ''C'', [Num 10, Num 0])]\<rparr>"

text \<open>
  The first scenario of the specification: columns \<open>A\<close>, \<open>B\<close>, \<open>weight\<close> and
  the rows \<open>(x, y, 10)\<close> and \<open>(p, q, 0)\<close>.
\<close>

definition abw_frame :: dataframe where
  "abw_frame = \<lparr>index_len = 2, data =
     [(StrLabel ''A'', [Txt ''x'', Txt ''p'']),
      (StrLabel ''B'', [Txt ''y'', Txt ''q'']),
      (StrLabel ''weight'', [Num 10, Num 0])]\<rparr>"

text \<open>The second scenario: six text columns, then \<open>weight\<close>, one row of weight \<open>9\<close>.\<close>

definition seven_frame :: dataframe where
  "seven_frame = \<lparr>index_len = 1, data =
     [(StrLabel ''c1'', [Txt ''a'']), (StrLabel ''c2'', [Txt ''b'']),
      (StrLabel ''c3'', [Txt ''c'']), (StrLabel ''c4'', [Txt ''d'']),
      (StrLabel ''c5'', [Txt ''e'']), (StrLabel ''c6'', [Txt ''f'']),
      (StrLabel ''weight'', [Num 9])]\<rparr>"

text \<open>A frame without a number.\<close>

definition text_frame :: dataframe where
  "text_frame = \<lparr>index_len = 2, data =
     [(StrLabel ''name'', [Txt ''ann'', Txt ''bob'']),
      (StrLabel ''city'', [Txt ''rome'', Missing])]\<rparr>"

text \<open>The first scenario after reshaping with five containers, and after distribution.\<close>

definition abw_shifted :: dataframe where
  "abw_shifted = \<lparr>index_len = 2, data =
     [(StrLabel ''Container_1'', [Num 0, Num 0]),
      (StrLabel ''Container_2'', [Num 0, Num 0]),
      (StrLabel ''Container_3'', [Num 0, Num 0]),
      (StrLabel ''Container_4'', [Num 0, Num 0]),
      (StrLabel ''Container_5'', [Num 0, Num 0]),
      (StrLabel ''Column_3'', [Txt ''x'', Txt ''p'']),
      (StrLabel ''Column_4'', [Txt ''y'', Txt ''q'']),
      (StrLabel ''Column_5'', [Num 10, Num 0])]\<rparr>"

definition abw_filled :: dataframe where
  "abw_filled = \<lparr>index_len = 2, data =
     [(StrLabel ''Container_1'', [Num 2, Num 0]),
      (StrLabel ''Container_2'', [Num 2, Num 0]),
      (StrLabel ''Container_3'', [Num 2, Num 0]),
      (StrLabel ''Container_4'', [Num 2, Num 0]),
      (StrLabel ''Container_5'', [Num 2, Num 0]),
      (StrLabel ''Column_3'', [Txt ''x'', Txt ''p'']),
      (StrLabel ''Column_4'', [Txt ''y'', Txt ''q'']),
      (StrLabel ''Column_5'', [Num 10, Num 0])]\<rparr>"

definition containers5 :: "label list" where
  "containers5 = [StrLabel ''Container_1'', StrLabel ''Container_2'', StrLabel ''Container_3'',
     StrLabel ''Container_4'', StrLabel ''Container_5'']"

text \<open>
  A text column before the weight column, and a first row of weight \<open>0\<close>: with one
  container no shift is needed.
\<close>

definition keep_frame :: dataframe where
  "keep_frame = \<lparr>index_len = 2, data =
     [(StrLabel ''c1'', [Txt ''x'', Txt ''y'']),
      (StrLabel ''weight'', [Num 0, Num 5])]\<rparr>"

text \<open>
  One column, read without a header, with the single weight \<open>1\<close>; the frame after
  reshaping with eight containers, and after distribution: every container holds the
  double nearest to \<open>0.12\<close>.
\<close>

definition unit_frame :: dataframe where
  "unit_frame = \<lparr>index_len = 1, data = [(IntLabel 0, [Num 1])]\<rparr>"

definition containers8 :: "label list" where
  "containers8 = [StrLabel ''Container_1'', StrLabel ''Container_2'', StrLabel ''Container_3'',
     StrLabel ''Container_4'', StrLabel ''Container_5'', StrLabel ''Container_6'',
     StrLabel ''Container_7'', StrLabel ''Container_8'']"

definition unit_shifted :: dataframe where
  "unit_shifted = \<lparr>index_len = 1, data =
     map (\<lambda>c. (c, [Num 0])) containers8 @ [(StrLabel ''Column_8'', [Num 1])]\<rparr>"

definition unit_filled :: dataframe where
  "unit_filled = \<lparr>index_len = 1, data =
     map (\<lambda>c. (c, [Num (1080863910568919 / 9007199254740992)])) containers8
     @ [(StrLabel ''Column_8'', [Num 1])]\<rparr>"

text \<open>
  The weight column first, with no weight above \<open>0\<close>, and a column of text.
\<close>

definition idle_frame :: dataframe where
  "idle_frame = \<lparr>index_len = 2, data =
     [(StrLabel ''weight'', [Num 0, Num (- 2)]),
      (StrLabel ''note'', [Txt ''a'', Txt ''b''])]\<rparr>"

section \<open>Detection of the weight column\<close>

lemma leftmost_max_here:
  assumes "\<forall>c\<in>set xs. notna_sum parse (snd c) \<le> notna_sum parse cells"
  shows "leftmost_max parse ((col, cells) # xs) col (notna_sum parse cells)"
  unfolding leftmost_max_def
  apply (rule exI [of _ "[]"])
  apply (rule exI [of _ cells])
  apply (rule exI [of _ xs])
  using assms apply simp
  done

lemma leftmost_max_later:
  assumes "leftmost_max parse xs col m" and "notna_sum parse (snd x) < m"
  shows "leftmost_max parse (x # xs) col m"
proof -
  from assms(1) obtain pre cells post where h:
    "xs = pre @ (col, cells) # post" "m = notna_sum parse cells"
    "\<forall>c\<in>set pre. notna_sum parse (snd c) < m"
    "\<forall>c\<in>set post. notna_sum parse (snd c) \<le> m"
    unfolding leftmost_max_def by blast
  have 1: "x # xs = (x # pre) @ (col, cells) # post" using h(1) by simp
  have 2: "\<forall>c\<in>set (x # pre). notna_sum parse (snd c) < m"
    using h(3) assms(2) by simp
  show ?thesis
    unfolding leftmost_max_def
    apply (rule exI [of _ "x # pre"])
    apply (rule exI [of _ cells])
    apply (rule exI [of _ post])
    using 1 2 h(2) h(4) apply blast
    done
qed

lemma find_loop_split:
  "find_loop parse xs (w, m) = (w', m') \<Longrightarrow>
     (w' = w \<and> m' = m \<and> (\<forall>c\<in>set xs. notna_sum parse (snd c) \<le> m))
   \<or> (\<exists>col. w' = Some col \<and> m < m' \<and> leftmost_max parse xs col m')"
proof (induction xs arbitrary: w m)
  case Nil
  then show ?case by simp
next
  case (Cons x xs)
  obtain col cells where x: "x = (col, cells)" by (cases x)
  let ?c = "notna_sum parse cells"
  show ?case
  proof (cases "m < ?c")
    case True
    with Cons.prems x have run: "find_loop parse xs (Some col, ?c) = (w', m')"
      by simp
    from Cons.IH [OF run] show ?thesis
    proof
      assume keep: "w' = Some col \<and> m' = ?c \<and> (\<forall>c\<in>set xs. notna_sum parse (snd c) \<le> ?c)"
      then have "leftmost_max parse (x # xs) col m'"
        using leftmost_max_here [of xs parse cells col] x by simp
      with keep True show ?thesis by simp
    next
      assume "\<exists>col'. w' = Some col' \<and> ?c < m' \<and> leftmost_max parse xs col' m'"
      then obtain col' where later:
        "w' = Some col'" "?c < m'" "leftmost_max parse xs col' m'"
        by blast
      have "leftmost_max parse (x # xs) col' m'"
        using leftmost_max_later [OF later(3), of x] later(2) x by simp
      moreover have "m < m'" using True later(2) by simp
      ultimately show ?thesis using later(1) by simp
    qed
  next
    case False
    with Cons.prems x have run: "find_loop parse xs (w, m) = (w', m')"
      by simp
    from Cons.IH [OF run] show ?thesis
    proof
      assume "w' = w \<and> m' = m \<and> (\<forall>c\<in>set xs. notna_sum parse (snd c) \<le> m)"
      with False x show ?thesis by simp
    next
      assume "\<exists>col'. w' = Some col' \<and> m < m' \<and> leftmost_max parse xs col' m'"
      then obtain col' where later:
        "w' = Some col'" "m < m'" "leftmost_max parse xs col' m'"
        by blast
      have "leftmost_max parse (x # xs) col' m'"
        using leftmost_max_later [OF later(3), of x] later(2) x False by simp
      then show ?thesis using later(1,2) by simp
    qed
  qed
qed

text \<open>
  C3. \<open>find_weight_column\<close> returns the leftmost column whose count of numeric cells
  is the greatest, with that count, and it returns no column exactly when every column
  has no numeric cell (the count returned is then \<open>0\<close>).
\<close>

theorem find_weight_column_leftmost_max:
  "(case find_weight_column parse df of
      (None, m) \<Rightarrow> m = 0 \<and> (\<forall>c\<in>set (data df). notna_sum parse (snd c) = 0)
    | (Some col, m) \<Rightarrow>
        0 < m \<and>
        (\<exists>pre cells post. data df = pre @ (col, cells) # post
           \<and> m = notna_sum parse cells
           \<and> (\<forall>c\<in>set pre. notna_sum parse (snd c) < m)
           \<and> (\<forall>c\<in>set post. notna_sum parse (snd c) \<le> m)))"
proof -
  obtain w' m' where r: "find_loop parse (data df) (None, 0) = (w', m')"
    by (cases "find_loop parse (data df) (None, 0)")
  from find_loop_split [OF r] show ?thesis
  proof
    assume "w' = None \<and> m' = 0 \<and> (\<forall>c\<in>set (data df). notna_sum parse (snd c) \<le> 0)"
    then show ?thesis using r by (simp add: find_weight_column_def)
  next
    assume "\<exists>col. w' = Some col \<and> 0 < m' \<and> leftmost_max parse (data df) col m'"
    then obtain col where h: "w' = Some col" "0 < m'" "leftmost_max parse (data df) col m'"
      by blast
    have "find_weight_column parse df = (Some col, m')"
      using r h(1) by (simp add: find_weight_column_def)
    then show ?thesis using h(2) h(3) unfolding leftmost_max_def by simp
  qed
qed

theorem find_weight_column_leftmost_max_witness:
  "find_weight_column (\<lambda>s. None) tie_frame = (Some (StrLabel ''B''), 2) \<and>
   (\<exists>pre cells post. data tie_frame = pre @ (StrLabel ''B'', cells) # post
           \<and> 2 = notna_sum (\<lambda>s. None) cells
           \<and> (\<forall>c\<in>set pre. notna_sum (\<lambda>s. None) (snd c) < 2)
           \<and> (\<forall>c\<in>set post. notna_sum (\<lambda>s. None) (snd c) \<le> 2))"
proof -
  have v: "find_weight_column (\<lambda>s. None) tie_frame = (Some (StrLabel ''B''), 2)"
    by (simp add: find_weight_column_def tie_frame_def notna_sum_def to_numeric_def)
  show ?thesis
    using find_weight_column_leftmost_max [where parse = "\<lambda>s. None" and df = tie_frame]
    by (simp only: v prod.case option.case simp_thms)
qed

section \<open>Column names\<close>

lemma digit_val_digit_char: "d < 10 \<Longrightarrow> digit_val (digit_char d) = d"
proof -
  assume "d < 10"
  then consider "d = 0" | "d = 1" | "d = 2" | "d = 3" | "d = 4" | "d = 5" | "d = 6"
    | "d = 7" | "d = 8" | "d = 9"
    by atomize_elim arith
  then show ?thesis
    by cases (simp_all add: digit_val_def digit_char_def)
qed

lemma nat_of_str_snoc: "nat_of_str (s @ [c]) = 10 * nat_of_str s + digit_val c"
  by (simp add: nat_of_str_def)

lemma nat_of_str_str_nat: "nat_of_str (str_nat n) = n"
proof (induction n rule: str_nat.induct)
  case (1 n)
  show ?case
  proof (cases "n < 10")
    case True
    then show ?thesis
      by (simp add: str_nat.simps [of n] nat_of_str_def digit_val_digit_char)
  next
    case False
    with 1 have "nat_of_str (str_nat (n div 10)) = n div 10" by simp
    with False show ?thesis
      by (simp add: str_nat.simps [of n] nat_of_str_snoc digit_val_digit_char)
  qed
qed

lemma str_nat_inj: "str_nat a = str_nat b \<longleftrightarrow> a = b"
  by (metis nat_of_str_str_nat)

lemma container_name_inj: "container_name a = container_name b \<longleftrightarrow> a = b"
  by (simp add: container_name_def str_nat_inj)

lemma column_name_inj: "column_name a = column_name b \<longleftrightarrow> a = b"
  by (simp add: column_name_def str_nat_inj)

lemma container_name_neq_column_name: "container_name a \<noteq> column_name b"
  by (simp add: container_name_def column_name_def)

section \<open>Positions and the dict\<close>

lemma index_of_None_iff: "index_of xs x = None \<longleftrightarrow> x \<notin> set xs"
  by (induction xs) (auto split: option.splits)

lemma index_of_Some_iff:
  "index_of xs x = Some i \<longleftrightarrow> i < length xs \<and> xs ! i = x \<and> (\<forall>j<i. xs ! j \<noteq> x)"
proof (induction xs arbitrary: i)
  case Nil
  then show ?case by simp
next
  case (Cons y ys)
  show ?case
  proof (cases "y = x")
    case True
    then show ?thesis by (cases i) auto
  next
    case False
    show ?thesis
    proof (cases i)
      case 0
      with False show ?thesis by (simp split: option.splits)
    next
      case (Suc k)
      have "(\<forall>j<Suc k. (y # ys) ! j \<noteq> x) \<longleftrightarrow> (\<forall>j<k. ys ! j \<noteq> x)"
        using False by (auto simp: less_Suc_eq_0_disj)
      with Suc False Cons.IH [of k] show ?thesis
        by (auto split: option.splits)
    qed
  qed
qed

lemma not_in_take_before_index:
  assumes "index_of xs x = Some i"
  shows "x \<notin> set (take i xs)"
proof
  assume "x \<in> set (take i xs)"
  then obtain j where "j < length (take i xs)" "take i xs ! j = x"
    by (auto simp: in_set_conv_nth)
  then have "j < i" "xs ! j = x" by simp_all
  with assms show False by (simp add: index_of_Some_iff)
qed

lemma dict_set_fresh: "k \<notin> fst ` set d \<Longrightarrow> dict_set d k v = d @ [(k, v)]"
  by (induction d) auto

lemma fold_dict_set_fresh:
  "distinct (map fst kvs) \<Longrightarrow> fst ` set kvs \<inter> fst ` set d = {} \<Longrightarrow>
     fold (\<lambda>kv d. dict_set d (fst kv) (snd kv)) kvs d = d @ kvs"
proof (induction kvs arbitrary: d)
  case Nil
  then show ?case by simp
next
  case (Cons kv kvs)
  have fresh: "fst kv \<notin> fst ` set d" using Cons.prems(2) by auto
  have step: "dict_set d (fst kv) (snd kv) = d @ [kv]"
    using dict_set_fresh [OF fresh] by simp
  have "fst ` set kvs \<inter> fst ` set (d @ [kv]) = {}"
    using Cons.prems by auto
  with Cons.IH [of "d @ [kv]"] Cons.prems(1) step show ?case by simp
qed

lemma add_containers_eq:
  "add_containers n rows [] = map (\<lambda>i. (container_name i, replicate rows (Num 0))) [0..<n]"
proof -
  let ?kvs = "map (\<lambda>i. (container_name i, replicate rows (Num 0))) [0..<n]"
  have "add_containers n rows [] = fold (\<lambda>kv d. dict_set d (fst kv) (snd kv)) ?kvs []"
    by (simp add: add_containers_def fold_map comp_def)
  moreover have "distinct (map fst ?kvs)"
    by (simp add: distinct_map comp_def inj_on_def container_name_inj)
  ultimately show ?thesis
    using fold_dict_set_fresh [of ?kvs "[]"] by simp
qed

lemma add_shifted_eq:
  assumes "fst ` set d \<subseteq> range container_name"
  shows "add_shifted s cols d =
     d @ map (\<lambda>(i, col). (column_name (i + s), snd col)) (enumerate 0 cols)"
proof -
  let ?kvs = "map (\<lambda>(i, col). (column_name (i + s), snd col)) (enumerate 0 cols)"
  have run: "add_shifted s cols d = fold (\<lambda>kv d. dict_set d (fst kv) (snd kv)) ?kvs d"
    by (simp add: add_shifted_def fold_map comp_def case_prod_unfold)
  have keys: "map fst ?kvs = map (\<lambda>i. column_name (i + s)) [0..<length cols]"
    by (rule nth_equalityI) (simp_all add: nth_enumerate_eq)
  have dist: "distinct (map fst ?kvs)"
    unfolding keys by (simp add: distinct_map inj_on_def column_name_inj)
  have "set (map fst ?kvs) \<subseteq> range column_name"
    unfolding keys by auto
  then have sub: "fst ` set ?kvs \<subseteq> range column_name"
    by (simp only: set_map)
  have "range column_name \<inter> range container_name = {}"
    using container_name_neq_column_name by (auto; metis)
  with sub assms have disj: "fst ` set ?kvs \<inter> fst ` set d = {}"
    by blast
  show ?thesis
    unfolding run by (rule fold_dict_set_fresh [OF dist disj])
qed

section \<open>Reshaping\<close>

text \<open>What the method returns in each branch.\<close>

lemma shift_case_result:
  assumes "index_of (columns df) w = Some i" and "int i < n"
  shows "shift_columns_and_create_containers df w n =
     Inr (\<lparr>index_len = index_len df,
           data = map (\<lambda>k. (container_name k, replicate (index_len df) (Num 0))) [0..<nat n]
                  @ map (\<lambda>(k, col). (column_name (k + (nat n - i)), snd col))
                      (enumerate 0 (data df))\<rparr>,
          column_name (nat n), map container_name [0..<nat n])"
proof -
  have s: "nat (n - int i) = nat n - i" and t: "i + (nat n - i) = nat n"
    using assms(2) by simp_all
  have "fst ` set (add_containers (nat n) (index_len df) []) \<subseteq> range container_name"
    by (auto simp: add_containers_eq)
  from add_shifted_eq [OF this] show ?thesis
    using assms by (simp add: shift_columns_and_create_containers_def Let_def s t len_df_def
        add_containers_eq)
qed

lemma no_shift_result:
  assumes "index_of (columns df) w = Some i" and "\<not> int i < n"
  shows "shift_columns_and_create_containers df w n = Inr (df, w, take i (columns df))"
  using assms by (simp add: shift_columns_and_create_containers_def)

lemma shifted_columns:
  "map fst (map (\<lambda>(k, col). (column_name (k + s), snd col)) (enumerate 0 cols))
     = map (\<lambda>k. column_name (k + s)) [0..<length cols]"
  by (rule nth_equalityI) (simp_all add: nth_enumerate_eq)

lemma shifted_cells:
  "map snd (map (\<lambda>(k, col). (column_name (k + s), snd col)) (enumerate 0 cols)) = map snd cols"
  by (rule nth_equalityI) (simp_all add: nth_enumerate_eq)

lemma index_of_shifted_weight:
  assumes "i < m" and "i \<le> N"
  shows "index_of (map container_name [0..<N] @ map (\<lambda>k. column_name (k + (N - i))) [0..<m])
           (column_name N) = Some (N + i)"
proof -
  let ?xs = "map container_name [0..<N] @ map (\<lambda>k. column_name (k + (N - i))) [0..<m]"
  have at: "?xs ! (N + i) = column_name N"
    using assms by (simp add: nth_append)
  have before: "?xs ! j \<noteq> column_name N" if "j < N + i" for j
  proof (cases "j < N")
    case True
    then show ?thesis by (simp add: nth_append container_name_neq_column_name)
  next
    case False
    with that assms have "j - N < m" "j - N + (N - i) \<noteq> N" by auto
    with False show ?thesis by (simp add: nth_append column_name_inj)
  qed
  show ?thesis
    unfolding index_of_Some_iff using at before assms by simp
qed

text \<open>
  C2, as the code has it. When the weight column stands at position \<open>i < n\<close>, the
  reshaped frame has \<open>n\<close> columns more than the original and as many rows; the
  original column at position \<open>k\<close> is found, cells unchanged, at position \<open>n + k\<close>
  under the label \<open>Column_(k + n - i)\<close>; the new weight label is \<open>Column_n\<close>, and the
  column that carries it stands at position \<open>n + i\<close>.
\<close>

theorem shift_correctness:
  assumes "index_of (columns df) w = Some i" and "int i < n"
  shows "\<exists>new_df.
     shift_columns_and_create_containers df w n =
       Inr (new_df, column_name (nat n), map container_name [0..<nat n])
     \<and> length (columns new_df) = length (columns df) + nat n
     \<and> len_df new_df = len_df df
     \<and> (\<forall>k<length (data df).
           data new_df ! (nat n + k) = (column_name (k + (nat n - i)), snd (data df ! k)))
     \<and> index_of (columns new_df) (column_name (nat n)) = Some (nat n + i)"
proof -
  let ?new = "\<lparr>index_len = index_len df,
           data = map (\<lambda>k. (container_name k, replicate (index_len df) (Num 0))) [0..<nat n]
                  @ map (\<lambda>(k, col). (column_name (k + (nat n - i)), snd col))
                      (enumerate 0 (data df))\<rparr>"
  have i: "i < length (data df)" "i \<le> nat n"
    using assms by (simp_all add: index_of_Some_iff columns_def)
  have cols: "columns ?new = map container_name [0..<nat n]
       @ map (\<lambda>k. column_name (k + (nat n - i))) [0..<length (data df)]"
    using shifted_columns [of "nat n - i" "data df"] by (simp add: columns_def comp_def)
  have 1: "length (columns ?new) = length (columns df) + nat n"
    by (simp add: columns_def)
  have 2: "len_df ?new = len_df df"
    by (simp add: len_df_def)
  have 3: "\<forall>k<length (data df).
           data ?new ! (nat n + k) = (column_name (k + (nat n - i)), snd (data df ! k))"
    by (simp add: nth_append nth_enumerate_eq)
  have 4: "index_of (columns ?new) (column_name (nat n)) = Some (nat n + i)"
    unfolding cols using i by (rule index_of_shifted_weight)
  from shift_case_result [OF assms] 1 2 3 4 show ?thesis by blast
qed

theorem shift_correctness_witness:
  "index_of (columns abw_frame) (StrLabel ''weight'') = Some 2 \<and> int 2 < 5 \<and>
   (\<exists>new_df.
     shift_columns_and_create_containers abw_frame (StrLabel ''weight'') 5 =
       Inr (new_df, column_name (nat 5), map container_name [0..<nat 5])
     \<and> length (columns new_df) = length (columns abw_frame) + nat 5
     \<and> len_df new_df = len_df abw_frame
     \<and> (\<forall>k<length (data abw_frame).
           data new_df ! (nat 5 + k) = (column_name (k + (nat 5 - 2)), snd (data abw_frame ! k)))
     \<and> index_of (columns new_df) (column_name (nat 5)) = Some (nat 5 + 2))"
proof -
  have a: "index_of (columns abw_frame) (StrLabel ''weight'') = Some 2"
    by (simp add: abw_frame_def columns_def)
  have b: "int 2 < 5" by simp
  from shift_correctness [OF a b] a b show ?thesis by blast
qed

text \<open>
  C2, as the specification has it, puts the new weight column at position \<open>n\<close>. In
  the first scenario (\<open>n = 5\<close>, weight at position \<open>2\<close>) the column labelled
  \<open>Column_5\<close> stands at position \<open>7\<close>: five containers and two columns precede it.
\<close>

theorem weight_position_counterexample:
  "weight_position (shift_columns_and_create_containers abw_frame (StrLabel ''weight'') 5) = Some 7
   \<and> weight_position (shift_columns_and_create_containers abw_frame (StrLabel ''weight'') 5)
       \<noteq> Some 5"
proof -
  have a: "index_of (columns abw_frame) (StrLabel ''weight'') = Some 2"
    by (simp add: abw_frame_def columns_def)
  have b: "int 2 < 5" by simp
  have len: "length (data abw_frame) = 3" by (simp add: abw_frame_def)
  have "weight_position (shift_columns_and_create_containers abw_frame (StrLabel ''weight'') 5)
      = Some 7"
    unfolding shift_case_result [OF a b] weight_position_def
    using index_of_shifted_weight [of 2 3 5] shifted_columns [of 3 "data abw_frame"]
    by (simp add: columns_def len comp_def)
  then show ?thesis by simp
qed

text \<open>
  C8. The containers never include the weight column. After a shift they are the \<open>n\<close>
  first columns of the new frame, all zeros, and the cells of the original columns
  follow them in order; without a shift the frame and the weight label are unchanged
  and the containers are the columns that stand before the weight column.
\<close>

theorem containers_exclude_weight:
  assumes "shift_columns_and_create_containers df w n = Inr (new_df, w', cs)"
  shows "w' \<notin> set cs \<and>
    (\<exists>i. index_of (columns df) w = Some i \<and>
      (if int i < n
       then cs = take (nat n) (columns new_df) \<and> length cs = nat n
            \<and> map snd (take (nat n) (data new_df))
                = replicate (nat n) (replicate (len_df df) (Num 0))
            \<and> map snd (drop (nat n) (data new_df)) = map snd (data df)
       else new_df = df \<and> w' = w \<and> cs = take i (columns new_df)
            \<and> index_of (columns new_df) w' = Some i))"
proof -
  from assms obtain i where i: "index_of (columns df) w = Some i"
    by (auto simp: shift_columns_and_create_containers_def split: option.splits)
  show ?thesis
  proof (cases "int i < n")
    case True
    let ?zeros = "map (\<lambda>k. (container_name k, replicate (index_len df) (Num 0))) [0..<nat n]"
    let ?moved = "map (\<lambda>(k, col). (column_name (k + (nat n - i)), snd col))
                      (enumerate 0 (data df))"
    from shift_case_result [OF i True] assms
    have new: "new_df = \<lparr>index_len = index_len df, data = ?zeros @ ?moved\<rparr>"
      and w': "w' = column_name (nat n)" and cs: "cs = map container_name [0..<nat n]"
      by simp_all
    have len: "length ?zeros = nat n" by simp
    have 1: "w' \<notin> set cs"
      unfolding w' cs using container_name_neq_column_name by (auto; metis)
    have 2: "cs = take (nat n) (columns new_df)"
      unfolding cs new columns_def by (simp add: comp_def)
    have 3: "length cs = nat n" unfolding cs by simp
    have "map snd ?zeros = replicate (nat n) (replicate (len_df df) (Num 0))"
      by (simp add: comp_def len_df_def map_replicate_const)
    then have 4: "map snd (take (nat n) (data new_df))
                = replicate (nat n) (replicate (len_df df) (Num 0))"
      unfolding new using len by simp
    have 5: "map snd (drop (nat n) (data new_df)) = map snd (data df)"
      unfolding new using len shifted_cells [of "nat n - i" "data df"] by simp
    from 1 2 3 4 5 i True show ?thesis by simp
  next
    case False
    from no_shift_result [OF i False] assms
    have "new_df = df" "w' = w" "cs = take i (columns df)" by simp_all
    with i False not_in_take_before_index [OF i] show ?thesis by simp
  qed
qed

theorem containers_exclude_weight_witness:
  "shift_columns_and_create_containers seven_frame (StrLabel ''weight'') 5
     = Inr (seven_frame, StrLabel ''weight'',
         [StrLabel ''c1'', StrLabel ''c2'', StrLabel ''c3'', StrLabel ''c4'',
          StrLabel ''c5'', StrLabel ''c6''])
   \<and> StrLabel ''weight'' \<notin> set [StrLabel ''c1'', StrLabel ''c2'', StrLabel ''c3'',
          StrLabel ''c4'', StrLabel ''c5'', StrLabel ''c6'']
   \<and> index_of (columns seven_frame) (StrLabel ''weight'') = Some 6
   \<and> StrLabel ''Column_5'' \<notin> set [StrLabel ''Container_1'', StrLabel ''Container_2'',
         StrLabel ''Container_3'', StrLabel ''Container_4'', StrLabel ''Container_5'']"
proof -
  have run: "shift_columns_and_create_containers seven_frame (StrLabel ''weight'') 5
     = Inr (seven_frame, StrLabel ''weight'',
         [StrLabel ''c1'', StrLabel ''c2'', StrLabel ''c3'', StrLabel ''c4'',
          StrLabel ''c5'', StrLabel ''c6''])"
    by code_simp
  have pos: "index_of (columns seven_frame) (StrLabel ''weight'') = Some 6"
    by code_simp
  have shifted: "shift_columns_and_create_containers abw_frame (StrLabel ''weight'') 5 =
    Inr (\<lparr>index_len = 2, data =
             [(StrLabel ''Container_1'', [Num 0, Num 0]),
              (StrLabel ''Container_2'', [Num 0, Num 0]),
              (StrLabel ''Container_3'', [Num 0, Num 0]),
              (StrLabel ''Container_4'', [Num 0, Num 0]),
              (StrLabel ''Container_5'', [Num 0, Num 0]),
              (StrLabel ''Column_3'', [Txt ''x'', Txt ''p'']),
              (StrLabel ''Column_4'', [Txt ''y'', Txt ''q'']),
              (StrLabel ''Column_5'', [Num 10, Num 0])]\<rparr>,
        StrLabel ''Column_5'',
        [StrLabel ''Container_1'', StrLabel ''Container_2'',
         StrLabel ''Container_3'', StrLabel ''Container_4'',
         StrLabel ''Container_5''])"
    by code_simp
  from containers_exclude_weight [OF run] containers_exclude_weight [OF shifted] run pos
  show ?thesis by blast
qed

text \<open>
  C1. Without a shift the method returns every column before the weight column as a
  container, whatever \<open>user_defined_containers\<close> is. In the second scenario
  (\<open>n = 5\<close>, weight at position \<open>6\<close>) the containers are \<open>c1\<close> to \<open>c6\<close>, and each
  cell of the row becomes \<open>9 / 6 = 1.5\<close>, where five containers of \<open>1.8\<close> were asked
  for.
\<close>

theorem no_shift_takes_all_leading_columns:
  "shift_columns_and_create_containers seven_frame (StrLabel ''weight'') 5
     = Inr (seven_frame, StrLabel ''weight'',
         [StrLabel ''c1'', StrLabel ''c2'', StrLabel ''c3'', StrLabel ''c4'',
          StrLabel ''c5'', StrLabel ''c6''])
   \<and> process_dataframe (\<lambda>s. None) seven_frame 5 =
     Inr (Some
       (\<lparr>index_len = 1,
           data =
             [(StrLabel ''c1'', [Num (3 / 2)]), (StrLabel ''c2'', [Num (3 / 2)]),
              (StrLabel ''c3'', [Num (3 / 2)]), (StrLabel ''c4'', [Num (3 / 2)]),
              (StrLabel ''c5'', [Num (3 / 2)]), (StrLabel ''c6'', [Num (3 / 2)]),
              (StrLabel ''weight'', [Num 9])]\<rparr>,
        StrLabel ''weight'',
        [StrLabel ''c1'', StrLabel ''c2'', StrLabel ''c3'', StrLabel ''c4'',
         StrLabel ''c5'', StrLabel ''c6'']))"
  by code_simp

text \<open>
  C6, as the code has it. The method has no check of \<open>user_defined_containers\<close>: with
  a count below \<open>1\<close> it raises nothing, takes the branch without a shift and returns
  the frame and the weight label it was given.
\<close>

theorem nonpositive_count_accepted:
  assumes "index_of (columns df) w = Some i" and "n < 1"
  shows "\<exists>cs. shift_columns_and_create_containers df w n = Inr (df, w, cs)"
  using assms by (simp add: shift_columns_and_create_containers_def)

theorem nonpositive_count_accepted_witness:
  "index_of (columns seven_frame) (StrLabel ''weight'') = Some 6 \<and> (0::int) < 1 \<and>
   (\<exists>cs. shift_columns_and_create_containers seven_frame (StrLabel ''weight'') 0
     = Inr (seven_frame, StrLabel ''weight'', cs))"
proof -
  have pos: "index_of (columns seven_frame) (StrLabel ''weight'') = Some 6"
    by code_simp
  have neg: "(0::int) < 1" by simp
  from nonpositive_count_accepted [OF pos neg] pos neg show ?thesis by blast
qed

text \<open>
  C6, as the specification has it, has a count below \<open>1\<close> rejected before anything is
  done. With a count of \<open>0\<close> and the weight column first, the reshaping returns the
  frame with an empty list of containers, and \<open>process_dataframe\<close>, finding no weight
  above \<open>0\<close>, returns it as its result: no error is raised anywhere.
\<close>

theorem zero_count_counterexample:
  "shift_columns_and_create_containers idle_frame (StrLabel ''weight'') 0
     = Inr (idle_frame, StrLabel ''weight'', [])
   \<and> process_dataframe (\<lambda>s. None) idle_frame 0
     = Inr (Some (idle_frame, StrLabel ''weight'', []))"
  by code_simp

section \<open>No weight column\<close>

lemma find_loop_none:
  "\<forall>c\<in>set xs. notna_sum parse (snd c) \<le> m \<Longrightarrow> find_loop parse xs (w, m) = (w, m)"
  by (induction xs) auto

text \<open>
  C7. When no column has a numeric cell, \<open>find_weight_column\<close> finds none and
  \<open>process_dataframe\<close> returns \<open>None\<close>: no frame, reshaped or filled, comes back.
\<close>

theorem no_numeric_column_returns_none:
  assumes "\<forall>c\<in>set (data df). notna_sum parse (snd c) = 0"
  shows "find_weight_column parse df = (None, 0) \<and> process_dataframe parse df n = Inr None"
proof -
  have "find_loop parse (data df) (None, 0) = (None, 0)"
    using assms by (intro find_loop_none) simp
  then show ?thesis
    by (simp add: process_dataframe_def find_weight_column_def)
qed

theorem no_numeric_column_returns_none_witness:
  "find_weight_column (\<lambda>s. None) text_frame = (None, 0)
   \<and> process_dataframe (\<lambda>s. None) text_frame 5 = Inr None"
proof -
  have "\<forall>c\<in>set (data text_frame). notna_sum (\<lambda>s. None) (snd c) = 0"
    by (simp add: text_frame_def notna_sum_def to_numeric_def)
  from no_numeric_column_returns_none [OF this] show ?thesis .
qed

section \<open>The distribution loop\<close>

lemma same_except_refl: "same_except C R d d"
  by (simp add: same_except_def)

lemma same_except_trans:
  assumes "same_except C R d d'" and "same_except C R' d' d''"
  shows "same_except C (R \<union> R') d d''"
proof -
  have len: "length d' = length d"
    using assms(1) unfolding same_except_def by (metis length_map)
  have lab: "fst (d' ! k) = fst (d ! k)" if "k < length d" for k
    using assms(1) that len unfolding same_except_def by (metis nth_map)
  show ?thesis
    unfolding same_except_def
  proof (intro conjI allI impI)
    show "map fst d'' = map fst d"
      using assms unfolding same_except_def by simp
    show "map (\<lambda>c. length (snd c)) d'' = map (\<lambda>c. length (snd c)) d"
      using assms unfolding same_except_def by simp
  next
    fix k j
    assume k: "k < length d" and out: "fst (d ! k) \<notin> C \<or> j \<notin> R \<union> R'"
    have "snd (d' ! k) ! j = snd (d ! k) ! j"
      using assms(1) k out unfolding same_except_def by blast
    moreover have "snd (d'' ! k) ! j = snd (d' ! k) ! j"
      using assms(2) k out len lab [OF k] unfolding same_except_def by auto
    ultimately show "snd (d'' ! k) ! j = snd (d ! k) ! j" by simp
  qed
qed

lemma same_except_mono:
  "same_except C R d d' \<Longrightarrow> C \<subseteq> C' \<Longrightarrow> R \<subseteq> R' \<Longrightarrow> same_except C' R' d d'"
  unfolding same_except_def by blast

lemma set_cell_same:
  "c \<in> fst ` set d \<Longrightarrow> same_except {c} {i} d (set_cell d rows i c v)"
proof (induction d)
  case Nil
  then show ?case by simp
next
  case (Cons x d)
  obtain c' cells where x: "x = (c', cells)" by (cases x)
  show ?case
  proof (cases "c' = c")
    case True
    then show ?thesis
      using x by (auto simp: same_except_def nth_Cons split: nat.splits)
  next
    case False
    with Cons.prems x have "c \<in> fst ` set d" by auto
    from Cons.IH [OF this] False x show ?thesis
      by (auto simp: same_except_def nth_Cons split: nat.splits)
  qed
qed

lemma same_except_columns: "same_except C R d d' \<Longrightarrow> fst ` set d' = fst ` set d"
  unfolding same_except_def by (metis set_map)

lemma write_pairs_same:
  "snd ` set ps \<subseteq> fst ` set (data df) \<Longrightarrow>
     same_except (snd ` set ps) {i} (data df)
       (data (fold (\<lambda>(j, container_col) d. set_at d i container_col (distribution ! j)) ps df))
   \<and> index_len (fold (\<lambda>(j, container_col) d. set_at d i container_col (distribution ! j)) ps df)
       = index_len df"
proof (induction ps arbitrary: df)
  case Nil
  then show ?case by (simp add: same_except_refl)
next
  case (Cons p ps)
  obtain j c where p: "p = (j, c)" by (cases p)
  let ?df1 = "set_at df i c (distribution ! j)"
  have c: "c \<in> fst ` set (data df)" using Cons.prems p by auto
  have first: "same_except {c} {i} (data df) (data ?df1)"
    using set_cell_same [OF c] by (simp add: set_at_def)
  have cols: "fst ` set (data ?df1) = fst ` set (data df)"
    using same_except_columns [OF first] .
  have "snd ` set ps \<subseteq> fst ` set (data ?df1)"
    using Cons.prems cols by auto
  from Cons.IH [OF this]
  have rest: "same_except (snd ` set ps) {i} (data ?df1)
       (data (fold (\<lambda>(j, container_col) d. set_at d i container_col (distribution ! j)) ps ?df1))"
    and idx: "index_len (fold (\<lambda>(j, container_col) d. set_at d i container_col (distribution ! j)) ps ?df1)
       = index_len ?df1"
    by simp_all
  have first': "same_except (snd ` set (p # ps)) {i} (data df) (data ?df1)"
    using p by (intro same_except_mono [OF first]) auto
  have rest': "same_except (snd ` set (p # ps)) {i} (data ?df1)
       (data (fold (\<lambda>(j, container_col) d. set_at d i container_col (distribution ! j)) ps ?df1))"
    by (intro same_except_mono [OF rest]) auto
  from same_except_trans [OF first' rest'] idx p show ?case
    by (simp add: set_at_def)
qed

lemma write_row_same:
  assumes "set cs \<subseteq> set (columns df)"
  shows "same_except (set cs) {i} (data df) (data (write_row df i cs distribution))"
    and "index_len (write_row df i cs distribution) = index_len df"
proof -
  have "snd ` set (enumerate 0 cs) = set cs"
    by (metis list.set_map map_snd_enumerate)
  with assms write_pairs_same [of "enumerate 0 cs" df i distribution]
  show "same_except (set cs) {i} (data df) (data (write_row df i cs distribution))"
    and "index_len (write_row df i cs distribution) = index_len df"
    by (simp_all add: write_row_def columns_def)
qed

lemma distribute_rows_same:
  "distribute_rows rows cs df p = Inr (df', p') \<Longrightarrow> set cs \<subseteq> set (columns df) \<Longrightarrow>
     same_except (set cs) {i. \<exists>wt. (i, wt) \<in> set rows \<and> positive wt} (data df) (data df')
     \<and> index_len df' = index_len df
     \<and> p' = p + length (filter (\<lambda>r. positive (snd r)) rows)
     \<and> (\<forall>r\<in>set rows. \<forall>s. snd r \<noteq> Txt s)"
proof (induction rows arbitrary: df p)
  case Nil
  then show ?case by (simp add: same_except_refl)
next
  case (Cons r rows)
  obtain i weight where r: "r = (i, weight)" by (cases r)
  show ?case
  proof (cases "positive weight")
    case False
    with Cons.prems(1) r have run: "distribute_rows rows cs df p = Inr (df', p')"
      and notext: "\<forall>s. weight \<noteq> Txt s"
      by (auto simp: positive_def split: cell.splits if_splits)
    from Cons.IH [OF run Cons.prems(2)]
    have rest: "same_except (set cs) {i. \<exists>wt. (i, wt) \<in> set rows \<and> positive wt} (data df) (data df')"
      and idx: "index_len df' = index_len df"
      and cnt: "p' = p + length (filter (\<lambda>r. positive (snd r)) rows)"
      and later: "\<forall>r\<in>set rows. \<forall>s. snd r \<noteq> Txt s"
      by simp_all
    have "{i. \<exists>wt. (i, wt) \<in> set rows \<and> positive wt}
        \<subseteq> {k. \<exists>wt. (k, wt) \<in> set (r # rows) \<and> positive wt}"
      by auto
    with rest have "same_except (set cs) {k. \<exists>wt. (k, wt) \<in> set (r # rows) \<and> positive wt}
        (data df) (data df')"
      by (intro same_except_mono [OF rest]) simp_all
    with idx cnt later False r notext show ?thesis by simp
  next
    case True
    then obtain w where w: "weight = Num w" "0 < w"
      by (auto simp: positive_def split: cell.splits)
    with Cons.prems(1) r obtain distribution where
      run: "distribute_rows rows cs (write_row df i cs distribution) (p + 1) = Inr (df', p')"
      by (auto split: sum.splits)
    let ?df1 = "write_row df i cs distribution"
    note first = write_row_same [OF Cons.prems(2), of i distribution]
    have "set cs \<subseteq> set (columns ?df1)"
      using Cons.prems(2) same_except_columns [OF first(1)] by (simp add: columns_def)
    from Cons.IH [OF run this]
    have rest: "same_except (set cs) {i. \<exists>wt. (i, wt) \<in> set rows \<and> positive wt} (data ?df1) (data df')"
      and idx: "index_len df' = index_len ?df1"
      and cnt: "p' = p + 1 + length (filter (\<lambda>r. positive (snd r)) rows)"
      and notext: "\<forall>r\<in>set rows. \<forall>s. snd r \<noteq> Txt s"
      by simp_all
    have "{i} \<union> {i. \<exists>wt. (i, wt) \<in> set rows \<and> positive wt}
        = {k. \<exists>wt. (k, wt) \<in> set (r # rows) \<and> positive wt}"
      using True r by auto
    with same_except_trans [OF first(1) rest]
    have "same_except (set cs) {k. \<exists>wt. (k, wt) \<in> set (r # rows) \<and> positive wt} (data df) (data df')"
      by simp
    with idx first(2) cnt notext True r w show ?thesis by simp
  qed
qed

lemma enumerate_positive_rows:
  "{i. \<exists>wt. (i, wt) \<in> set (enumerate 0 ws) \<and> positive wt} = {i. i < length ws \<and> positive (ws ! i)}"
  by (auto simp: in_set_enumerate_eq)

lemma enumerate_positive_count:
  "length (filter (\<lambda>r. positive (snd r)) (enumerate 0 ws)) = length (filter positive ws)"
proof -
  have "filter positive (map snd (enumerate 0 ws))
      = map snd (filter (\<lambda>r. positive (snd r)) (enumerate 0 ws))"
    by (simp only: filter_map comp_def)
  then have "length (filter positive (map snd (enumerate 0 ws)))
      = length (filter (\<lambda>r. positive (snd r)) (enumerate 0 ws))"
    by simp
  then show ?thesis by (simp only: map_snd_enumerate)
qed

lemma distribute_weights_same:
  assumes "distribute_weights df w cs = Inr (df', p)" and "set cs \<subseteq> set (columns df)"
  shows "\<exists>ws. map_of (data df) w = Some ws
     \<and> same_except (set cs) {i. i < length ws \<and> positive (ws ! i)} (data df) (data df')
     \<and> index_len df' = index_len df
     \<and> p = length (filter positive ws)
     \<and> (\<forall>c\<in>set ws. \<forall>s. c \<noteq> Txt s)"
proof -
  from assms(1) obtain ws where ws: "map_of (data df) w = Some ws"
    and run: "distribute_rows (enumerate 0 ws) cs df 0 = Inr (df', p)"
    by (auto simp: distribute_weights_def split: option.splits)
  from distribute_rows_same [OF run assms(2)]
  have "same_except (set cs) {i. i < length ws \<and> positive (ws ! i)} (data df) (data df')"
    and "index_len df' = index_len df" and "p = length (filter positive ws)"
    and "\<forall>r\<in>set (enumerate 0 ws). \<forall>s. snd r \<noteq> Txt s"
    by (simp_all add: enumerate_positive_rows enumerate_positive_count)
  moreover have "\<forall>c\<in>set ws. \<forall>s. c \<noteq> Txt s"
  proof
    fix c assume "c \<in> set ws"
    then obtain j where "j < length ws" "ws ! j = c"
      by (auto simp: in_set_conv_nth)
    then have "(j, c) \<in> set (enumerate 0 ws)"
      by (simp add: in_set_enumerate_eq)
    with calculation(4) show "\<forall>s. c \<noteq> Txt s" by fastforce
  qed
  ultimately show ?thesis using ws by blast
qed

lemma same_except_Cons:
  "same_except C R (x # d) (x' # d') \<longleftrightarrow>
     fst x' = fst x \<and> length (snd x') = length (snd x)
     \<and> (\<forall>j. fst x \<notin> C \<or> j \<notin> R \<longrightarrow> snd x' ! j = snd x ! j)
     \<and> same_except C R d d'"
  unfolding same_except_def
  by (auto simp: nth_Cons less_Suc_eq_0_disj split: nat.splits)

lemma same_except_length: "same_except C R d d' \<Longrightarrow> length d' = length d"
  unfolding same_except_def by (metis length_map)

lemma same_except_map_of:
  "same_except C R d d' \<Longrightarrow> w \<notin> C \<Longrightarrow> map_of d' w = map_of d w"
proof (induction d arbitrary: d')
  case Nil
  then show ?case by (simp add: same_except_def)
next
  case (Cons x d)
  from same_except_length [OF Cons.prems(1)] obtain x' d'' where d': "d' = x' # d''"
    by (cases d') simp_all
  from Cons.prems(1) have head: "fst x' = fst x" "length (snd x') = length (snd x)"
      "\<forall>j. fst x \<notin> C \<or> j \<notin> R \<longrightarrow> snd x' ! j = snd x ! j"
    and tail: "same_except C R d d''"
    unfolding d' same_except_Cons by simp_all
  show ?case
  proof (cases "fst x = w")
    case True
    with head Cons.prems(2) have "snd x' = snd x"
      by (intro nth_equalityI) simp_all
    with True head(1) show ?thesis
      unfolding d' by (cases x; cases x') simp
  next
    case False
    with head(1) Cons.IH [OF tail Cons.prems(2)] show ?thesis
      unfolding d' by (cases x; cases x') simp
  qed
qed

lemma containers_in_frame:
  assumes "shift_columns_and_create_containers df0 w0 n = Inr (df, w, cs)"
  shows "set cs \<subseteq> set (columns df)" and "w \<notin> set cs"
proof -
  from assms obtain i where i: "index_of (columns df0) w0 = Some i"
    by (auto simp: shift_columns_and_create_containers_def split: option.splits)
  have "set cs \<subseteq> set (columns df) \<and> w \<notin> set cs"
  proof (cases "int i < n")
    case True
    from shift_case_result [OF i True] assms
    have "columns df = map container_name [0..<nat n]
        @ map fst (map (\<lambda>(k, col). (column_name (k + (nat n - i)), snd col))
                      (enumerate 0 (data df0)))"
      and "w = column_name (nat n)" and "cs = map container_name [0..<nat n]"
      by (auto simp: columns_def comp_def)
    then show ?thesis
      using container_name_neq_column_name by (auto; metis)
  next
    case False
    from no_shift_result [OF i False] assms
    have "df = df0" "w = w0" "cs = take i (columns df0)" by simp_all
    with not_in_take_before_index [OF i] show ?thesis
      by (auto dest: in_set_takeD)
  qed
  then show "set cs \<subseteq> set (columns df)" and "w \<notin> set cs" by simp_all
qed

text \<open>The first scenario, run through both steps.\<close>

lemma abw_shift_run:
  "shift_columns_and_create_containers abw_frame (StrLabel ''weight'') 5
     = Inr (abw_shifted, StrLabel ''Column_5'', containers5)"
  by code_simp

lemma abw_distribute_run:
  "distribute_weights abw_shifted (StrLabel ''Column_5'') containers5 = Inr (abw_filled, 1)"
  by code_simp

lemma wf_abw_frame: "wf_df abw_frame"
  by code_simp

text \<open>
  C10. Distribution, run on what the reshaping returned, keeps the labels and their
  order, the number of rows, the length of every column and the whole weight column;
  a cell can only differ if its column is a container and its row has a weight that is a
  number greater than \<open>0\<close>.
\<close>

theorem distribution_writes_only_containers:
  assumes "shift_columns_and_create_containers df0 w0 n = Inr (df, w, cs)"
    and "distribute_weights df w cs = Inr (df', p)"
  shows "columns df' = columns df \<and> len_df df' = len_df df
     \<and> map (\<lambda>c. length (snd c)) (data df') = map (\<lambda>c. length (snd c)) (data df)
     \<and> map_of (data df') w = map_of (data df) w
     \<and> (\<exists>ws. map_of (data df) w = Some ws \<and>
          (\<forall>k<length (data df). \<forall>j.
             fst (data df ! k) \<notin> set cs \<or> \<not> (j < length ws \<and> positive (ws ! j))
             \<longrightarrow> snd (data df' ! k) ! j = snd (data df ! k) ! j))"
proof -
  note inside = containers_in_frame [OF assms(1)]
  from distribute_weights_same [OF assms(2) inside(1)] obtain ws where
    ws: "map_of (data df) w = Some ws"
    and same: "same_except (set cs) {i. i < length ws \<and> positive (ws ! i)} (data df) (data df')"
    and idx: "index_len df' = index_len df"
    by blast
  have 1: "columns df' = columns df"
    using same by (simp add: same_except_def columns_def)
  have 2: "len_df df' = len_df df"
    using idx by (simp add: len_df_def)
  have 3: "map (\<lambda>c. length (snd c)) (data df') = map (\<lambda>c. length (snd c)) (data df)"
    using same by (simp add: same_except_def)
  have 4: "map_of (data df') w = map_of (data df) w"
    using same inside(2) by (rule same_except_map_of)
  have 5: "\<forall>k<length (data df). \<forall>j.
             fst (data df ! k) \<notin> set cs \<or> \<not> (j < length ws \<and> positive (ws ! j))
             \<longrightarrow> snd (data df' ! k) ! j = snd (data df ! k) ! j"
    using same by (simp add: same_except_def)
  from 1 2 3 4 5 ws show ?thesis by blast
qed

theorem distribution_writes_only_containers_witness:
  "shift_columns_and_create_containers abw_frame (StrLabel ''weight'') 5
       = Inr (abw_shifted, StrLabel ''Column_5'', containers5)
   \<and> distribute_weights abw_shifted (StrLabel ''Column_5'') containers5 = Inr (abw_filled, 1)
   \<and> columns abw_filled = columns abw_shifted \<and> len_df abw_filled = len_df abw_shifted
   \<and> map_of (data abw_filled) (StrLabel ''Column_5'')
       = map_of (data abw_shifted) (StrLabel ''Column_5'')"
  using distribution_writes_only_containers [OF abw_shift_run abw_distribute_run]
    abw_shift_run abw_distribute_run
  by blast

lemma not_positive_cases:
  "\<not> positive c \<Longrightarrow> \<forall>s. c \<noteq> Txt s \<Longrightarrow> c = Missing \<or> (\<exists>q. c = Num q \<and> q \<le> 0)"
  by (cases c) (auto simp: positive_def)

lemma shifted_weights_length:
  assumes "wf_df df0" and "index_of (columns df0) w0 = Some i" and "int i < n"
    and "shift_columns_and_create_containers df0 w0 n = Inr (df, w, cs)"
    and "map_of (data df) w = Some ws"
  shows "length ws = index_len df0"
proof -
  let ?zeros = "map (\<lambda>k. (container_name k, replicate (index_len df0) (Num 0))) [0..<nat n]"
  let ?moved = "map (\<lambda>(k, col). (column_name (k + (nat n - i)), snd col))
                      (enumerate 0 (data df0))"
  from shift_case_result [OF assms(2,3)] assms(4)
  have "data df = ?zeros @ ?moved" by simp
  with map_of_SomeD [OF assms(5)] have "(w, ws) \<in> set ?zeros \<or> (w, ws) \<in> set ?moved"
    by simp
  then show ?thesis
  proof
    assume "(w, ws) \<in> set ?zeros"
    then show ?thesis by auto
  next
    assume "(w, ws) \<in> set ?moved"
    then obtain k col where "(k, col) \<in> set (enumerate 0 (data df0))" "ws = snd col"
      by auto
    then have "col \<in> set (data df0)" "ws = snd col"
      by (auto simp: in_set_enumerate_eq)
    with assms(1) show ?thesis
      by (auto simp: wf_df_def list_all_iff)
  qed
qed

lemma shifted_container_cells:
  assumes "index_of (columns df0) w0 = Some i" and "int i < n"
    and "shift_columns_and_create_containers df0 w0 n = Inr (df, w, cs)"
    and "k < nat n"
  shows "k < length (data df)" and "snd (data df ! k) = replicate (index_len df0) (Num 0)"
    and "fst (data df ! k) = container_name k"
proof -
  from shift_case_result [OF assms(1,2)] assms(3)
  have "data df = map (\<lambda>k. (container_name k, replicate (index_len df0) (Num 0))) [0..<nat n]
      @ map (\<lambda>(k, col). (column_name (k + (nat n - i)), snd col)) (enumerate 0 (data df0))"
    by simp
  with assms(4) show "k < length (data df)"
    and "snd (data df ! k) = replicate (index_len df0) (Num 0)"
    and "fst (data df ! k) = container_name k"
    by (simp_all add: nth_append)
qed

text \<open>
  C4, as the code has it. \<open>distribute_weight\<close> returns zeros for a missing or
  non-positive weight, but the loop does not call it for such a row: the row is not
  counted and every cell of it stays as it was. So its container cells are \<open>0\<close> after a
  shift, where the containers are new. \<open>processed_rows\<close> is the number of rows whose
  weight is a number greater than \<open>0\<close>.
\<close>

theorem nonpositive_rows_left_alone:
  assumes "wf_df df0"
    and "shift_columns_and_create_containers df0 w0 n = Inr (df, w, cs)"
    and "distribute_weights df w cs = Inr (df', p)"
  shows "distribute_weight Missing m = Inr (replicate m (Num 0))
     \<and> (\<forall>q\<le>0. distribute_weight (Num q) m = Inr (replicate m (Num 0)))
     \<and> (\<exists>ws. map_of (data df) w = Some ws \<and> p = length (filter positive ws)
          \<and> (\<forall>j<length ws. \<not> positive (ws ! j) \<longrightarrow>
                (ws ! j = Missing \<or> (\<exists>q. ws ! j = Num q \<and> q \<le> 0))
              \<and> (\<forall>k<length (data df). snd (data df' ! k) ! j = snd (data df ! k) ! j)
              \<and> (\<forall>i. index_of (columns df0) w0 = Some i \<and> int i < n \<longrightarrow>
                    (\<forall>k<nat n. snd (data df' ! k) ! j = Num 0))))"
proof -
  note inside = containers_in_frame [OF assms(2)]
  from distribute_weights_same [OF assms(3) inside(1)] obtain ws where
    ws: "map_of (data df) w = Some ws"
    and same: "same_except (set cs) {i. i < length ws \<and> positive (ws ! i)} (data df) (data df')"
    and cnt: "p = length (filter positive ws)"
    and notext: "\<forall>c\<in>set ws. \<forall>s. c \<noteq> Txt s"
    by blast
  have row: "(ws ! j = Missing \<or> (\<exists>q. ws ! j = Num q \<and> q \<le> 0))
              \<and> (\<forall>k<length (data df). snd (data df' ! k) ! j = snd (data df ! k) ! j)
              \<and> (\<forall>i. index_of (columns df0) w0 = Some i \<and> int i < n \<longrightarrow>
                    (\<forall>k<nat n. snd (data df' ! k) ! j = Num 0))"
    if j: "j < length ws" and np: "\<not> positive (ws ! j)" for j
  proof (intro conjI allI impI)
    from j notext have "\<forall>s. ws ! j \<noteq> Txt s" by simp
    with np show "ws ! j = Missing \<or> (\<exists>q. ws ! j = Num q \<and> q \<le> 0)"
      by (rule not_positive_cases)
  next
    fix k assume "k < length (data df)"
    with same np show "snd (data df' ! k) ! j = snd (data df ! k) ! j"
      unfolding same_except_def by simp
  next
    fix i k assume shift: "index_of (columns df0) w0 = Some i \<and> int i < n" and k: "k < nat n"
    then have i: "index_of (columns df0) w0 = Some i" "int i < n" by simp_all
    note cells = shifted_container_cells [OF i assms(2) k]
    have "length ws = index_len df0"
      using assms(1) i assms(2) ws by (rule shifted_weights_length)
    with j cells(2) have "snd (data df ! k) ! j = Num 0" by simp
    moreover from same np cells(1) have "snd (data df' ! k) ! j = snd (data df ! k) ! j"
      unfolding same_except_def by simp
    ultimately show "snd (data df' ! k) ! j = Num 0" by simp
  qed
  have "distribute_weight Missing m = Inr (replicate m (Num 0))"
    and "\<forall>q\<le>0. distribute_weight (Num q) m = Inr (replicate m (Num 0))"
    by (simp_all add: distribute_weight_def)
  with ws cnt row show ?thesis by blast
qed

theorem nonpositive_rows_left_alone_witness:
  "wf_df abw_frame
   \<and> shift_columns_and_create_containers abw_frame (StrLabel ''weight'') 5
       = Inr (abw_shifted, StrLabel ''Column_5'', containers5)
   \<and> distribute_weights abw_shifted (StrLabel ''Column_5'') containers5 = Inr (abw_filled, 1)
   \<and> (\<exists>ws. map_of (data abw_shifted) (StrLabel ''Column_5'') = Some ws
          \<and> 1 = length (filter positive ws)
          \<and> (\<forall>j<length ws. \<not> positive (ws ! j) \<longrightarrow>
                (ws ! j = Missing \<or> (\<exists>q. ws ! j = Num q \<and> q \<le> 0))
              \<and> (\<forall>k<length (data abw_shifted).
                    snd (data abw_filled ! k) ! j = snd (data abw_shifted ! k) ! j)
              \<and> (\<forall>i. index_of (columns abw_frame) (StrLabel ''weight'') = Some i \<and> int i < 5 \<longrightarrow>
                    (\<forall>k<nat 5. snd (data abw_filled ! k) ! j = Num 0))))"
  using nonpositive_rows_left_alone [OF wf_abw_frame abw_shift_run abw_distribute_run]
    wf_abw_frame abw_shift_run abw_distribute_run
  by blast

text \<open>
  C4, as the specification has it, gives such a row zeros in all its containers.
  Without a shift the containers are columns of data: the first row, of weight \<open>0\<close>,
  keeps the text \<open>x\<close> in the container \<open>c1\<close>.
\<close>

theorem kept_cell_counterexample:
  "process_dataframe (\<lambda>s. None) keep_frame 1 =
     Inr (Some (\<lparr>index_len = 2, data =
       [(StrLabel ''c1'', [Txt ''x'', Num 5]),
        (StrLabel ''weight'', [Num 0, Num 5])]\<rparr>,
       StrLabel ''weight'', [StrLabel ''c1'']))"
  by code_simp

section \<open>The input frame\<close>

text \<open>
  C9. The reshaping returns a new object and changes no object of the store, the
  input included. Without a shift the new object has the content of the input and
  the weight label is the one given; after a shift it is the frame built from the
  input. A later write through the returned reference does not reach the input.
\<close>

theorem reshape_leaves_input:
  assumes "df < length h"
    and "shift_columns_and_create_containers_ref h df w n = Inr (h', r, w', cs)"
  shows "r = length h \<and> r \<noteq> df \<and> length h' = Suc (length h)
     \<and> (\<forall>a<length h. h' ! a = h ! a)
     \<and> shift_columns_and_create_containers (h ! df) w n = Inr (h' ! r, w', cs)
     \<and> (\<forall>i. index_of (columns (h ! df)) w = Some i \<and> \<not> int i < n \<longrightarrow>
           h' ! r = h ! df \<and> w' = w)
     \<and> (\<forall>i c v. set_at_ref h' r i c v ! df = h ! df)"
proof -
  from assms(2) obtain t where
    pure: "shift_columns_and_create_containers (h ! df) w n = Inr (t, w', cs)"
    and h': "h' = h @ [t]" and r: "r = length h"
    by (auto simp: shift_columns_and_create_containers_ref_def new_object_def
        split: sum.splits)
  have 1: "r \<noteq> df" using r assms(1) by simp
  have 2: "\<forall>a<length h. h' ! a = h ! a" by (simp add: h' nth_append)
  have 3: "h' ! r = t" by (simp add: h' r)
  have 4: "\<forall>i. index_of (columns (h ! df)) w = Some i \<and> \<not> int i < n \<longrightarrow>
           h' ! r = h ! df \<and> w' = w"
    using pure 3 by (auto dest: no_shift_result)
  have 5: "\<forall>i c v. set_at_ref h' r i c v ! df = h ! df"
    using 1 2 assms(1) by (simp add: set_at_ref_def)
  from r 1 2 3 4 5 pure h' show ?thesis by simp
qed

theorem reshape_leaves_input_witness:
  "(0::nat) < length [seven_frame]
   \<and> shift_columns_and_create_containers_ref [seven_frame] 0 (StrLabel ''weight'') 5
       = Inr ([seven_frame, seven_frame], 1, StrLabel ''weight'',
           [StrLabel ''c1'', StrLabel ''c2'', StrLabel ''c3'', StrLabel ''c4'',
            StrLabel ''c5'', StrLabel ''c6''])
   \<and> (\<forall>i c v. set_at_ref [seven_frame, seven_frame] 1 i c v ! 0 = [seven_frame] ! 0)"
proof -
  have a: "(0::nat) < length [seven_frame]" by simp
  have b: "shift_columns_and_create_containers_ref [seven_frame] 0 (StrLabel ''weight'') 5
       = Inr ([seven_frame, seven_frame], 1, StrLabel ''weight'',
           [StrLabel ''c1'', StrLabel ''c2'', StrLabel ''c3'', StrLabel ''c4'',
            StrLabel ''c5'', StrLabel ''c6''])"
    by code_simp
  from reshape_leaves_input [OF a b] a b show ?thesis by blast
qed

text \<open>
  The method on references does what the method on frames does, in a new object: the
  objects that were in the store, the input among them, come out unchanged.
\<close>

lemma write_pairs_ref:
  "r < length h \<Longrightarrow>
     fold (\<lambda>(j, container_col) h. set_at_ref h r i container_col (distribution ! j)) ps h
       = h[r := fold (\<lambda>(j, container_col) d. set_at d i container_col (distribution ! j)) ps (h ! r)]"
proof (induction ps arbitrary: h)
  case Nil
  then show ?case by simp
next
  case (Cons p ps)
  obtain j c where p: "p = (j, c)" by (cases p)
  have "r < length (set_at_ref h r i c (distribution ! j))"
    using Cons.prems by (simp add: set_at_ref_def)
  from Cons.IH [OF this] Cons.prems p show ?case
    by (simp add: set_at_ref_def)
qed

lemma write_row_ref_eq:
  "r < length h \<Longrightarrow> write_row_ref h r i cs distribution = h[r := write_row (h ! r) i cs distribution]"
  by (simp add: write_row_ref_def write_row_def write_pairs_ref)

lemma distribute_rows_ref_eq:
  "r < length h \<Longrightarrow>
     distribute_rows_ref rows cs h r p =
       (case distribute_rows rows cs (h ! r) p of
          Inl e \<Rightarrow> Inl e
        | Inr (t, p') \<Rightarrow> Inr (h[r := t], p'))"
proof (induction rows arbitrary: h p)
  case Nil
  then show ?case by simp
next
  case (Cons x rows)
  obtain i weight where x: "x = (i, weight)" by (cases x)
  show ?case
  proof (cases weight)
    case (Num w)
    show ?thesis
    proof (cases "0 < w")
      case True
      show ?thesis
      proof (cases "distribute_weight weight (length cs)")
        case (Inl e)
        with x Num True show ?thesis by simp
      next
        case (Inr distribution)
        let ?h1 = "write_row_ref h r i cs distribution"
        have h1: "?h1 = h[r := write_row (h ! r) i cs distribution]"
          using Cons.prems by (rule write_row_ref_eq)
        then have "r < length ?h1" "?h1 ! r = write_row (h ! r) i cs distribution"
          using Cons.prems by simp_all
        with Cons.IH [of ?h1 "p + 1"] h1 x Num True Inr show ?thesis
          by (simp split: sum.splits)
      qed
    next
      case False
      with x Num Cons.IH [OF Cons.prems, of p] show ?thesis by simp
    qed
  next
    case (Txt s)
    with x show ?thesis by simp
  next
    case Missing
    with x Cons.IH [OF Cons.prems, of p] show ?thesis by simp
  qed
qed

lemma process_dataframe_ref_eq:
  assumes "df < length h"
  shows "process_dataframe_ref parse h df n =
     (case process_dataframe parse (h ! df) n of
        Inl e \<Rightarrow> Inl e
      | Inr None \<Rightarrow> Inr (h, None)
      | Inr (Some (t, w, cs)) \<Rightarrow> Inr (h @ [t], Some (length h, w, cs)))"
proof (cases "find_weight_column parse (h ! df)")
  case (Pair found weight_count)
  show ?thesis
  proof (cases found)
    case None
    with Pair show ?thesis
      by (simp add: process_dataframe_ref_def process_dataframe_def)
  next
    case (Some weight_column)
    show ?thesis
    proof (cases "shift_columns_and_create_containers (h ! df) weight_column n")
      case (Inl e)
      with Pair Some show ?thesis
        by (simp add: process_dataframe_ref_def process_dataframe_def
            shift_columns_and_create_containers_ref_def)
    next
      case (Inr res)
      obtain t w cs where res: "res = (t, w, cs)" by (cases res)
      have shift: "shift_columns_and_create_containers_ref h df weight_column n
          = Inr (h @ [t], length h, w, cs)"
        using Inr res by (simp add: shift_columns_and_create_containers_ref_def new_object_def)
      have r: "length h < length (h @ [t])" "(h @ [t]) ! length h = t"
          "(h @ [t])[length h := t'] = h @ [t']" for t'
        by simp_all
      show ?thesis
        using Pair Some Inr res shift
        by (simp add: process_dataframe_ref_def process_dataframe_def distribute_weights_def
            distribute_rows_ref_eq [OF r(1)] r(3) split: option.splits sum.splits)
    qed
  qed
qed

lemma process_leaves_input:
  assumes "df < length h" and "process_dataframe_ref parse h df n = Inr (h', res)"
  shows "\<forall>a<length h. h' ! a = h ! a"
  using assms
  by (auto simp: process_dataframe_ref_eq nth_append split: sum.splits option.splits)

section \<open>Rounding to a double\<close>

text \<open>
  \<open>floor_log2\<close> finds the exponent, so \<open>fl\<close> is within half a unit in the last place,
  and the share \<open>round(w / n, 2)\<close> is within \<open>0.005\<close> of the quotient up to the two
  roundings to a double.
\<close>

lemma bit_length_upper: "n < 2 ^ bit_length n"
proof (induction n rule: bit_length.induct)
  case (1 n)
  show ?case
  proof (cases "n = 0")
    case True
    then show ?thesis by (simp add: bit_length.simps [of n])
  next
    case False
    with 1 have "n div 2 < 2 ^ bit_length (n div 2)" by simp
    then have "n < 2 * 2 ^ bit_length (n div 2)" by linarith
    with False show ?thesis by (simp add: bit_length.simps [of n])
  qed
qed

lemma bit_length_lower: "0 < n \<Longrightarrow> 2 ^ (bit_length n - 1) \<le> n"
proof (induction n rule: bit_length.induct)
  case (1 n)
  show ?case
  proof (cases "n div 2 = 0")
    case True
    with 1 show ?thesis
      by (simp add: bit_length.simps [of n] bit_length.simps [of 0])
  next
    case False
    with 1 have ih: "2 ^ (bit_length (n div 2) - 1) \<le> n div 2" by simp
    have pos: "0 < bit_length (n div 2)"
      using False by (simp add: bit_length.simps [of "n div 2"])
    then have "(2::nat) ^ bit_length (n div 2) = 2 * 2 ^ (bit_length (n div 2) - 1)"
      by (cases "bit_length (n div 2)") simp_all
    with ih have "2 ^ bit_length (n div 2) \<le> n" by linarith
    with 1 show ?thesis by (simp add: bit_length.simps [of n])
  qed
qed

lemma pow2_powi: "pow2 e = 2 powi e"
  by (simp add: pow2_def power_int_def power_inverse inverse_eq_divide power_one_over)

lemma pow2_pos: "0 < pow2 e"
  by (simp add: pow2_powi)

lemma pow2_Suc: "pow2 (e + 1) = 2 * pow2 e"
  by (simp add: pow2_powi power_int_add)

lemma floor_log2_bounds:
  assumes "0 < q"
  shows "pow2 (floor_log2 q) \<le> q" and "q < 2 * pow2 (floor_log2 q)"
proof -
  obtain a b where ab: "quotient_of q = (a, b)" by (cases "quotient_of q")
  then have b: "0 < b" and q: "q = of_int a / of_int b"
    using quotient_of_denom_pos quotient_of_div by blast+
  with assms have a: "0 < a" by (simp add: zero_less_divide_iff)
  define la where "la = bit_length (nat a)"
  define lb where "lb = bit_length (nat b)"
  define d where "d = int la - int lb"
  have a_up: "of_int a < (2::rat) ^ la"
  proof -
    have "nat a < 2 ^ la" unfolding la_def by (rule bit_length_upper)
    then have "int (nat a) < 2 ^ la" by (metis of_nat_less_iff of_nat_numeral of_nat_power)
    with a have "a < 2 ^ la" by simp
    then have "(of_int a :: rat) < of_int (2 ^ la)" by (simp only: of_int_less_iff)
    then show ?thesis by simp
  qed
  have a_lo: "(2::rat) ^ (la - 1) \<le> of_int a"
  proof -
    have "2 ^ (la - 1) \<le> nat a" unfolding la_def using a by (intro bit_length_lower) simp
    then have "int (2 ^ (la - 1)) \<le> int (nat a)" by (simp only: of_nat_le_iff)
    with a have "2 ^ (la - 1) \<le> a" by simp
    then have "(of_int (2 ^ (la - 1)) :: rat) \<le> of_int a" by (simp only: of_int_le_iff)
    then show ?thesis by simp
  qed
  have b_up: "of_int b < (2::rat) ^ lb"
  proof -
    have "nat b < 2 ^ lb" unfolding lb_def by (rule bit_length_upper)
    then have "int (nat b) < 2 ^ lb" by (metis of_nat_less_iff of_nat_numeral of_nat_power)
    with b have "b < 2 ^ lb" by simp
    then have "(of_int b :: rat) < of_int (2 ^ lb)" by (simp only: of_int_less_iff)
    then show ?thesis by simp
  qed
  have b_lo: "(2::rat) ^ (lb - 1) \<le> of_int b"
  proof -
    have "2 ^ (lb - 1) \<le> nat b" unfolding lb_def using b by (intro bit_length_lower) simp
    then have "int (2 ^ (lb - 1)) \<le> int (nat b)" by (simp only: of_nat_le_iff)
    with b have "2 ^ (lb - 1) \<le> b" by simp
    then have "(of_int (2 ^ (lb - 1)) :: rat) \<le> of_int b" by (simp only: of_int_le_iff)
    then show ?thesis by simp
  qed
  have la: "0 < la" unfolding la_def using a by (simp add: bit_length.simps [of "nat a"])
  have lb: "0 < lb" unfolding lb_def using b by (simp add: bit_length.simps [of "nat b"])
  have pa: "(2::rat) ^ la = 2 * 2 ^ (la - 1)" using la by (cases la) simp_all
  have pb: "(2::rat) ^ lb = 2 * 2 ^ (lb - 1)" using lb by (cases lb) simp_all
  have pd: "pow2 d = 2 ^ la / 2 ^ lb"
    unfolding d_def pow2_powi by (simp add: power_int_diff)
  have rb: "(0::rat) < of_int b" using b by simp
  have upper: "q < 2 * pow2 d"
  proof -
    have "of_int a * (2::rat) ^ lb < 2 ^ la * (2 * of_int b)"
    proof -
      have "of_int a * (2::rat) ^ lb < 2 ^ la * 2 ^ lb"
        using a_up by (simp add: mult_strict_right_mono)
      also have "\<dots> \<le> 2 ^ la * (2 * of_int b)"
        using b_lo pb by (simp add: mult_left_mono)
      finally show ?thesis .
    qed
    then show ?thesis unfolding q pd using rb by (simp add: field_simps)
  qed
  have lower: "pow2 d / 2 \<le> q"
  proof -
    have "(2::rat) ^ la * of_int b \<le> 2 * of_int a * of_int b"
      using a_lo pa rb by (simp add: mult_right_mono)
    also have "\<dots> \<le> 2 * of_int a * 2 ^ lb"
      using b_up a by (simp add: mult_left_mono)
    finally show ?thesis unfolding q pd using rb by (simp add: field_simps)
  qed
  have val: "floor_log2 q = (if pow2 d \<le> q then d else d - 1)"
    unfolding floor_log2_def ab d_def la_def lb_def by (simp add: Let_def)
  have down: "pow2 d = 2 * pow2 (d - 1)"
    using pow2_Suc [of "d - 1"] by simp
  show "pow2 (floor_log2 q) \<le> q"
    using val lower down by (auto split: if_splits)
  show "q < 2 * pow2 (floor_log2 q)"
    using val upper down by (auto split: if_splits)
qed

lemma round_half_even_close: "\<bar>of_int (round_half_even x) - x\<bar> \<le> 1 / 2"
proof -
  define f where "f = \<lfloor>x\<rfloor>"
  define r where "r = x - of_int f"
  have r: "0 \<le> r" "r < 1" unfolding r_def f_def by linarith+
  have x: "x = of_int f + r" unfolding r_def by simp
  have "round_half_even x = f \<and> r \<le> 1 / 2 \<or> round_half_even x = f + 1 \<and> 1 / 2 \<le> r"
    by (auto simp: round_half_even_def Let_def f_def r_def)
  then show ?thesis using r unfolding x by auto
qed

lemma nearest_hundredth_close: "\<bar>nearest_hundredth x - x\<bar> \<le> 5 / 1000"
proof -
  define A where "A = of_int (round_half_even (x * 100)) - x * 100"
  have "\<bar>A\<bar> \<le> 1 / 2"
    unfolding A_def by (rule round_half_even_close)
  then have "\<bar>A / 100\<bar> \<le> 5 / 1000" by simp
  moreover have "nearest_hundredth x - x = A / 100"
    unfolding A_def nearest_hundredth_def by (simp add: diff_divide_distrib)
  ultimately show ?thesis by (simp only:)
qed

lemma fl_close: "\<bar>fl q - q\<bar> \<le> \<bar>q\<bar> / 2 ^ 53"
proof (cases "q = 0")
  case True
  then show ?thesis by (simp add: fl_def)
next
  case False
  define E where "E = floor_log2 \<bar>q\<bar>"
  define ulp where "ulp = pow2 (E - 52)"
  have E: "pow2 E \<le> \<bar>q\<bar>"
    unfolding E_def using False by (intro floor_log2_bounds) simp
  have ulp: "0 < ulp" "pow2 E = ulp * 2 ^ 52"
    unfolding ulp_def pow2_powi by (simp_all add: power_int_diff)
  have "fl q - q = (of_int (round_half_even (q / ulp)) - q / ulp) * ulp"
    using False ulp(1) by (simp add: fl_def Let_def E_def ulp_def field_simps)
  then have "\<bar>fl q - q\<bar> = \<bar>of_int (round_half_even (q / ulp)) - q / ulp\<bar> * ulp"
    using ulp(1) by (simp add: abs_mult)
  also have "\<dots> \<le> (1 / 2) * ulp"
    using round_half_even_close [of "q / ulp"] ulp(1) by (intro mult_right_mono) simp_all
  also have "\<dots> = pow2 E / 2 ^ 53"
    unfolding ulp(2) by simp
  also have "\<dots> \<le> \<bar>q\<bar> / 2 ^ 53"
    using E by (simp add: divide_right_mono)
  finally show ?thesis .
qed

lemma share_close:
  assumes "0 < t"
  shows "\<bar>py_round2 (fl t) - t\<bar> \<le> 5 / 1000 + (t + 5 / 1000) / 2 ^ 51"
proof -
  define y where "y = fl t"
  define s where "s = nearest_hundredth y"
  define r where "r = fl s"
  define eps :: rat where "eps = 1 / 2 ^ 53"
  define a where "a = t * eps"
  define b where "b = \<bar>s\<bar> * eps"
  define c where "c = 5 / 1000 * eps"
  have eps: "0 < eps" "eps \<le> 1" unfolding eps_def by simp_all
  have 1: "\<bar>y - t\<bar> \<le> a"
    unfolding y_def a_def eps_def using fl_close [of t] assms by simp
  have 2: "\<bar>s - y\<bar> \<le> 5 / 1000"
    unfolding s_def by (rule nearest_hundredth_close)
  have 3: "\<bar>r - s\<bar> \<le> b"
    unfolding r_def b_def eps_def using fl_close [of s] by simp
  have "a \<le> t" unfolding a_def using assms eps by (simp add: mult_left_le)
  with 1 2 have "\<bar>s\<bar> \<le> 2 * t + 5 / 1000" by linarith
  then have "\<bar>s\<bar> * eps \<le> (2 * t + 5 / 1000) * eps"
    using eps(1) by (simp add: mult_right_mono)
  then have 4: "b \<le> 2 * a + c"
    unfolding a_def b_def c_def by (simp add: algebra_simps)
  have "\<bar>r - t\<bar> \<le> 5 / 1000 + 3 * a + c"
    using 1 2 3 4 by linarith
  also have "\<dots> \<le> 5 / 1000 + (t + 5 / 1000) / 2 ^ 51"
    unfolding a_def c_def eps_def using assms by (simp add: field_simps)
  finally show ?thesis by (simp add: r_def s_def y_def py_round2_def)
qed

section \<open>The share of a row\<close>

text \<open>
  After the loop, a row whose weight \<open>w\<close> is a number greater than \<open>0\<close> holds
  \<open>round(w / n, 2)\<close> in every container column, \<open>n\<close> being the number of
  containers the loop was given.
\<close>

lemma set_cell_written:
  "index_of (map fst d) c = Some k \<Longrightarrow> i < length (snd (d ! k)) \<Longrightarrow>
     snd (set_cell d rows i c v ! k) ! i = v"
proof (induction d arbitrary: k)
  case Nil
  then show ?case by simp
next
  case (Cons x d)
  obtain c' cells where x: "x = (c', cells)" by (cases x)
  show ?case
  proof (cases "c' = c")
    case True
    with Cons.prems x show ?thesis by simp
  next
    case False
    with Cons.prems(1) x obtain k' where k': "k = Suc k'" "index_of (map fst d) c = Some k'"
      by (auto split: option.splits)
    with Cons.IH [of k'] Cons.prems(2) False x show ?thesis by simp
  qed
qed

lemma same_except_nth_length:
  "same_except C R d d' \<Longrightarrow> k < length d \<Longrightarrow> length (snd (d' ! k)) = length (snd (d ! k))"
proof -
  assume s: "same_except C R d d'" and k: "k < length d"
  then have "map (\<lambda>c. length (snd c)) d' ! k = map (\<lambda>c. length (snd c)) d ! k"
    by (simp add: same_except_def)
  with k same_except_length [OF s] show ?thesis by simp
qed

lemma write_pairs_written:
  "snd ` set ps \<subseteq> fst ` set (data df) \<Longrightarrow> \<forall>p\<in>set ps. distribution ! fst p = v \<Longrightarrow>
   c \<in> snd ` set ps \<Longrightarrow> index_of (columns df) c = Some k \<Longrightarrow>
   i < length (snd (data df ! k)) \<Longrightarrow>
     snd (data (fold (\<lambda>(j, container_col) d. set_at d i container_col (distribution ! j)) ps df) ! k) ! i = v"
proof (induction ps arbitrary: df)
  case Nil
  then show ?case by simp
next
  case (Cons p ps)
  obtain j c0 where p: "p = (j, c0)" by (cases p)
  let ?df1 = "set_at df i c0 v"
  let ?run = "\<lambda>df. fold (\<lambda>(j, container_col) d. set_at d i container_col (distribution ! j)) ps df"
  have v: "distribution ! j = v" using Cons.prems(2) p by simp
  have c0: "c0 \<in> fst ` set (data df)" using Cons.prems(1) p by auto
  have first: "same_except {c0} {i} (data df) (data ?df1)"
    using set_cell_same [OF c0] by (simp add: set_at_def)
  have k: "k < length (data df)" "fst (data df ! k) = c"
    using Cons.prems(4) by (auto simp: index_of_Some_iff columns_def)
  have cols1: "columns ?df1 = columns df"
    using first by (simp add: same_except_def columns_def)
  have len1: "i < length (snd (data ?df1 ! k))"
    using same_except_nth_length [OF first k(1)] Cons.prems(5) by simp
  have sub1: "snd ` set ps \<subseteq> fst ` set (data ?df1)"
    using Cons.prems(1) same_except_columns [OF first] by auto
  have step: "fold (\<lambda>(j, container_col) d. set_at d i container_col (distribution ! j)) (p # ps) df
      = ?run ?df1"
    using p v by simp
  show ?case
  proof (cases "c \<in> snd ` set ps")
    case True
    have "snd (data (?run ?df1) ! k) ! i = v"
      using sub1 _ True _ len1
    proof (rule Cons.IH)
      show "\<forall>p\<in>set ps. distribution ! fst p = v" using Cons.prems(2) by simp
      show "index_of (columns ?df1) c = Some k" using Cons.prems(4) cols1 by simp
    qed
    then show ?thesis unfolding step .
  next
    case False
    with Cons.prems(3) p have c: "c = c0" by auto
    have "snd (data ?df1 ! k) ! i = v"
      using set_cell_written [of "data df" c0 k i "index_len df" v] Cons.prems(4,5) c
      by (simp add: set_at_def columns_def)
    moreover have "same_except (snd ` set ps) {i} (data ?df1) (data (?run ?df1))"
      using write_pairs_same [OF sub1] by simp
    then have "snd (data (?run ?df1) ! k) ! i = snd (data ?df1 ! k) ! i"
      using False k same_except_length [OF first] first
      unfolding same_except_def by (metis nth_map)
    ultimately show ?thesis unfolding step by simp
  qed
qed

lemma write_row_written:
  assumes "set cs \<subseteq> set (columns df)" and "c \<in> set cs"
    and "index_of (columns df) c = Some k" and "i < length (snd (data df ! k))"
  shows "snd (data (write_row df i cs (replicate (length cs) v)) ! k) ! i = v"
proof -
  have cs: "snd ` set (enumerate 0 cs) = set cs"
    by (metis list.set_map map_snd_enumerate)
  have "\<forall>p\<in>set (enumerate 0 cs). replicate (length cs) v ! fst p = v"
    by (auto simp: in_set_enumerate_eq)
  with assms cs show ?thesis
    unfolding write_row_def
    by (intro write_pairs_written) (simp_all add: columns_def)
qed

lemma distribute_rows_written:
  "distribute_rows rows cs df p = Inr (df', p') \<Longrightarrow> set cs \<subseteq> set (columns df) \<Longrightarrow>
   distinct (map fst rows) \<Longrightarrow> (i, Num w) \<in> set rows \<Longrightarrow> 0 < w \<Longrightarrow> c \<in> set cs \<Longrightarrow>
   index_of (columns df) c = Some k \<Longrightarrow> i < length (snd (data df ! k)) \<Longrightarrow>
     snd (data df' ! k) ! i = Num (py_round2 (fdiv w (of_nat (length cs))))"
proof (induction rows arbitrary: df p)
  case Nil
  then show ?case by simp
next
  case (Cons r rows)
  obtain i0 weight0 where r: "r = (i0, weight0)" by (cases r)
  have k: "k < length (data df)"
    using Cons.prems(7) by (simp add: index_of_Some_iff columns_def)
  have n: "0 < length cs" using Cons.prems(6) by (cases cs) simp_all
  show ?case
  proof (cases "positive weight0")
    case False
    with Cons.prems(1) r have run: "distribute_rows rows cs df p = Inr (df', p')"
      by (auto simp: positive_def split: cell.splits if_splits)
    from False Cons.prems(4,5) r have "(i, Num w) \<in> set rows"
      by (auto simp: positive_def)
    with Cons.IH [OF run Cons.prems(2)] Cons.prems show ?thesis by simp
  next
    case True
    then obtain w0 where w0: "weight0 = Num w0" "0 < w0"
      by (auto simp: positive_def split: cell.splits)
    let ?share = "Num (py_round2 (fdiv w0 (of_nat (length cs))))"
    let ?df1 = "write_row df i0 cs (replicate (length cs) ?share)"
    from Cons.prems(1) r w0 n
    have run: "distribute_rows rows cs ?df1 (p + 1) = Inr (df', p')"
      by (simp add: distribute_weight_def)
    note first = write_row_same [OF Cons.prems(2), of i0 "replicate (length cs) ?share"]
    have cols1: "columns ?df1 = columns df"
      using first(1) by (simp add: same_except_def columns_def)
    have len1: "i < length (snd (data ?df1 ! k))"
      using same_except_nth_length [OF first(1) k] Cons.prems(8) by simp
    show ?thesis
    proof (cases "(i, Num w) \<in> set rows")
      case True
      from Cons.IH [OF run _ _ True Cons.prems(5,6) _ len1] cols1 Cons.prems show ?thesis
        by simp
    next
      case False
      with Cons.prems(4) r w0 have here: "i0 = i" "w0 = w" by auto
      have "snd (data ?df1 ! k) ! i = Num (py_round2 (fdiv w (of_nat (length cs))))"
        using write_row_written [OF Cons.prems(2) Cons.prems(6) Cons.prems(7) Cons.prems(8)]
          here by simp
      moreover
      from distribute_rows_same [OF run] cols1 Cons.prems(2)
      have "same_except (set cs) {j. \<exists>wt. (j, wt) \<in> set rows \<and> positive wt}
          (data ?df1) (data df')"
        by simp
      moreover have "i \<notin> {j. \<exists>wt. (j, wt) \<in> set rows \<and> positive wt}"
        using Cons.prems(3) r here by (auto simp: image_iff) 
      moreover have "k < length (data ?df1)"
        using k same_except_length [OF first(1)] by simp
      ultimately show ?thesis
        unfolding same_except_def by simp
    qed
  qed
qed

lemma positive_row_gets_share:
  assumes "distribute_weights df wl cs = Inr (df', p)" and "set cs \<subseteq> set (columns df)"
    and "map_of (data df) wl = Some ws" and "i < length ws" and "ws ! i = Num w" and "0 < w"
    and "c \<in> set cs" and "index_of (columns df) c = Some k"
    and "i < length (snd (data df ! k))"
  shows "snd (data df' ! k) ! i = Num (py_round2 (fdiv w (of_nat (length cs))))"
proof -
  from assms(1,3) have run: "distribute_rows (enumerate 0 ws) cs df 0 = Inr (df', p)"
    by (simp add: distribute_weights_def)
  have "distinct (map fst (enumerate 0 ws))" by simp
  moreover have "(i, Num w) \<in> set (enumerate 0 ws)"
    using assms(4,5) by (simp add: in_set_enumerate_eq)
  ultimately show ?thesis
    using distribute_rows_written [OF run assms(2)] assms(6-9) by blast
qed

section \<open>The share and the weight\<close>

lemma map_of_first_index:
  "index_of (map fst d) c = Some k \<Longrightarrow> map_of d c = Some (snd (d ! k))"
proof (induction d arbitrary: k)
  case Nil
  then show ?case by simp
next
  case (Cons x d)
  obtain c' cells where x: "x = (c', cells)" by (cases x)
  show ?case
  proof (cases "c' = c")
    case True
    with Cons.prems x show ?thesis by simp
  next
    case False
    with Cons.prems x obtain k' where "k = Suc k'" "index_of (map fst d) c = Some k'"
      by (auto split: option.splits)
    with Cons.IH [of k'] False x show ?thesis by simp
  qed
qed

lemma index_of_member: "x \<in> set xs \<Longrightarrow> \<exists>k. index_of xs x = Some k"
  using index_of_None_iff [of xs x] by (cases "index_of xs x") simp_all

lemma reshape_lengths:
  assumes "wf_df df0"
    and "shift_columns_and_create_containers df0 w0 n = Inr (df, wl, cs)"
  shows "\<forall>c\<in>set (data df). length (snd c) = index_len df0"
proof -
  from assms(2) obtain i where i: "index_of (columns df0) w0 = Some i"
    by (auto simp: shift_columns_and_create_containers_def split: option.splits)
  have old: "\<forall>c\<in>set (data df0). length (snd c) = index_len df0"
    using assms(1) by (simp add: wf_df_def list_all_iff)
  show ?thesis
  proof (cases "int i < n")
    case True
    let ?zeros = "map (\<lambda>k. (container_name k, replicate (index_len df0) (Num 0))) [0..<nat n]"
    let ?moved = "map (\<lambda>(k, col). (column_name (k + (nat n - i)), snd col))
                      (enumerate 0 (data df0))"
    from shift_case_result [OF i True] assms(2)
    have df: "data df = ?zeros @ ?moved" by simp
    have moved_len: "length (snd c) = index_len df0" if "c \<in> set ?moved" for c
    proof -
      from that obtain k col where "(k, col) \<in> set (enumerate 0 (data df0))" "snd c = snd col"
        by auto
      then have "col \<in> set (data df0)" by (auto simp: in_set_enumerate_eq)
      with old \<open>snd c = snd col\<close> show ?thesis by simp
    qed
    have zeros_len: "length (snd c) = index_len df0" if "c \<in> set ?zeros" for c
      using that by auto
    show ?thesis
    proof (intro ballI)
      fix c assume "c \<in> set (data df)"
      then have "c \<in> set ?zeros \<or> c \<in> set ?moved" by (simp add: df)
      then show "length (snd c) = index_len df0"
        using zeros_len moved_len by blast
    qed
  next
    case False
    from no_shift_result [OF i False] assms(2) have "df = df0" by simp
    with old show ?thesis by simp
  qed
qed

lemma distribute_rows_needs_container:
  "distribute_rows rows [] df p = Inr r \<Longrightarrow> (i, Num w) \<in> set rows \<Longrightarrow> 0 < w \<Longrightarrow> False"
proof (induction rows arbitrary: df p)
  case Nil
  then show ?case by simp
next
  case (Cons x rows)
  obtain i0 weight0 where x: "x = (i0, weight0)" by (cases x)
  show ?case
  proof (cases "positive weight0")
    case True
    then obtain w0 where "weight0 = Num w0" "0 < w0"
      by (auto simp: positive_def split: cell.splits)
    with Cons.prems(1) x show ?thesis
      by (simp add: distribute_weight_def)
  next
    case False
    with Cons.prems(1) x have run: "distribute_rows rows [] df p = Inr r"
      by (auto simp: positive_def split: cell.splits if_splits)
    from False Cons.prems(2,3) x have "(i, Num w) \<in> set rows"
      by (auto simp: positive_def)
    from Cons.IH [OF run this Cons.prems(3)] show ?thesis .
  qed
qed

lemma share_sum_close:
  assumes "0 < w" and "0 < n"
  shows "\<bar>of_nat n * py_round2 (fdiv w (of_nat n)) - w\<bar>
           \<le> of_nat n * (5 / 1000) + (w + of_nat n * (5 / 1000)) / 2 ^ 51"
proof -
  define N :: rat where "N = of_nat n"
  define t where "t = w / N"
  define s where "s = py_round2 (fl t)"
  have N: "0 < N" unfolding N_def using assms(2) by simp
  then have t: "0 < t" "w = N * t" unfolding t_def using assms(1) by simp_all
  have "\<bar>s - t\<bar> \<le> 5 / 1000 + (t + 5 / 1000) / 2 ^ 51"
    unfolding s_def using t(1) by (rule share_close)
  then have "N * \<bar>s - t\<bar> \<le> N * (5 / 1000 + (t + 5 / 1000) / 2 ^ 51)"
    using N by (simp add: mult_left_mono)
  moreover have "N * \<bar>s - t\<bar> = \<bar>N * s - w\<bar>"
    using N t(2) by (simp add: abs_mult flip: right_diff_distrib)
  moreover have "N * (5 / 1000 + (t + 5 / 1000) / 2 ^ 51)
      = N * (5 / 1000) + (w + N * (5 / 1000)) / 2 ^ 51"
    unfolding t(2) by (simp add: algebra_simps)
  ultimately have "\<bar>N * s - w\<bar> \<le> N * (5 / 1000) + (w + N * (5 / 1000)) / 2 ^ 51"
    by simp
  then show ?thesis
    by (simp add: s_def t_def N_def fdiv_def)
qed

text \<open>The frame with the single weight \<open>1\<close>, run through both steps with eight containers.\<close>

lemma wf_unit_frame: "wf_df unit_frame"
  by code_simp

lemma unit_shift_run:
  "shift_columns_and_create_containers unit_frame (IntLabel 0) 8
     = Inr (unit_shifted, StrLabel ''Column_8'', containers8)"
  by code_simp

lemma unit_distribute_run:
  "distribute_weights unit_shifted (StrLabel ''Column_8'') containers8 = Inr (unit_filled, 1)"
  by code_simp

lemma unit_weights: "map_of (data unit_shifted) (StrLabel ''Column_8'') = Some [Num 1]"
  by code_simp

text \<open>
  C5, as the code has it. In a row whose weight \<open>w\<close> is a number greater than \<open>0\<close>
  there is at least one container, and every container cell holds the same share
  \<open>round(w / n, 2)\<close>, \<open>n\<close> being the number of containers; nothing corrects a
  remainder, so the cells of the row add up to \<open>n\<close> times the share. The division and
  \<open>round\<close> each return a double, so the sum differs from \<open>w\<close> by at most
  \<open>n \<times> 0.005 + (w + n \<times> 0.005) / 2^51\<close>.
\<close>

theorem positive_row_share:
  assumes "wf_df df0"
    and "shift_columns_and_create_containers df0 w0 n = Inr (df, wl, cs)"
    and "distribute_weights df wl cs = Inr (df', p)"
    and "map_of (data df) wl = Some ws" and "i < length ws" and "ws ! i = Num w" and "0 < w"
  shows "cs \<noteq> []
     \<and> (\<forall>c\<in>set cs. cell_at df' c i = Some (Num (py_round2 (fdiv w (of_nat (length cs))))))
     \<and> container_sum df' cs i = of_nat (length cs) * py_round2 (fdiv w (of_nat (length cs)))
     \<and> \<bar>of_nat (length cs) * py_round2 (fdiv w (of_nat (length cs))) - w\<bar>
           \<le> of_nat (length cs) * (5 / 1000) + (w + of_nat (length cs) * (5 / 1000)) / 2 ^ 51"
proof -
  let ?share = "py_round2 (fdiv w (of_nat (length cs)))"
  note inside = containers_in_frame [OF assms(2)]
  note lens = reshape_lengths [OF assms(1,2)]
  from assms(3,4) have run: "distribute_rows (enumerate 0 ws) cs df 0 = Inr (df', p)"
    by (simp add: distribute_weights_def)
  have row: "(i, Num w) \<in> set (enumerate 0 ws)"
    using assms(5,6) by (simp add: in_set_enumerate_eq)
  have 1: "cs \<noteq> []"
    using run row assms(7) by (auto dest: distribute_rows_needs_container)
  from distribute_weights_same [OF assms(3) inside(1)] assms(4)
  have same: "same_except (set cs) {j. j < length ws \<and> positive (ws ! j)} (data df) (data df')"
    by simp
  have rows: "length ws = index_len df0"
    using map_of_SomeD [OF assms(4)] lens by auto
  have 2: "cell_at df' c i = Some (Num ?share)" if c: "c \<in> set cs" for c
  proof -
    from c inside(1) obtain k where k: "index_of (columns df) c = Some k"
      by (auto dest: index_of_member)
    then have kl: "k < length (data df)"
      by (simp add: index_of_Some_iff columns_def)
    then have "length (snd (data df ! k)) = index_len df0"
      using lens by simp
    with rows assms(5) have il: "i < length (snd (data df ! k))" by simp
    have val: "snd (data df' ! k) ! i = Num ?share"
      using assms(3) inside(1) assms(4,5,6,7) c k il by (rule positive_row_gets_share)
    have "columns df' = columns df"
      using same by (simp add: same_except_def columns_def)
    with k have "index_of (map fst (data df')) c = Some k"
      by (simp add: columns_def)
    then have "map_of (data df') c = Some (snd (data df' ! k))"
      by (rule map_of_first_index)
    moreover have "i < length (snd (data df' ! k))"
      using same_except_nth_length [OF same kl] il by simp
    ultimately show ?thesis using val by (simp add: cell_at_def)
  qed
  have same_numbers: "map (\<lambda>c. number_of (cell_at df' c i)) cs = map (\<lambda>c. ?share) cs"
    using 2 by (intro map_cong) (simp_all add: number_of_def)
  have "sum_list (map (\<lambda>c. ?share) cs) = of_nat (length cs) * ?share"
    by (simp add: sum_list_triv)
  then have 3: "container_sum df' cs i = of_nat (length cs) * ?share"
    unfolding container_sum_def same_numbers .
  have 4: "\<bar>of_nat (length cs) * ?share - w\<bar>
           \<le> of_nat (length cs) * (5 / 1000) + (w + of_nat (length cs) * (5 / 1000)) / 2 ^ 51"
    using assms(7) 1 by (intro share_sum_close) simp_all
  from 1 2 3 4 show ?thesis by blast
qed

theorem positive_row_share_witness:
  "wf_df unit_frame
   \<and> shift_columns_and_create_containers unit_frame (IntLabel 0) 8
       = Inr (unit_shifted, StrLabel ''Column_8'', containers8)
   \<and> distribute_weights unit_shifted (StrLabel ''Column_8'') containers8 = Inr (unit_filled, 1)
   \<and> containers8 \<noteq> []
   \<and> container_sum unit_filled containers8 0
       = of_nat (length containers8) * py_round2 (fdiv 1 (of_nat (length containers8)))
   \<and> \<bar>of_nat (length containers8) * py_round2 (fdiv 1 (of_nat (length containers8))) - 1\<bar>
           \<le> of_nat (length containers8) * (5 / 1000)
             + (1 + of_nat (length containers8) * (5 / 1000)) / 2 ^ 51"
proof -
  have a: "(0::nat) < length [Num 1]" and b: "[Num 1] ! 0 = Num 1" and c: "(0::rat) < 1"
    by simp_all
  from positive_row_share [OF wf_unit_frame unit_shift_run unit_distribute_run unit_weights a b c]
    wf_unit_frame unit_shift_run unit_distribute_run
  show ?thesis by blast
qed

text \<open>
  C5, as the specification has it, bounds the difference by \<open>n \<times> 0.005\<close>. With the
  weight \<open>1\<close> and eight containers the quotient is \<open>0.125\<close>, \<open>round\<close> returns the
  double nearest to \<open>0.12\<close>, which is a little less than \<open>0.12\<close>, and eight of them miss
  \<open>1\<close> by more than \<open>0.04\<close>.
\<close>

theorem share_bound_counterexample:
  "process_dataframe (\<lambda>s. None) unit_frame 8
     = Inr (Some (unit_filled, StrLabel ''Column_8'', containers8))
   \<and> container_sum unit_filled containers8 0 = 8 * (1080863910568919 / 9007199254740992)
   \<and> 8 * (5 / 1000) < \<bar>container_sum unit_filled containers8 0 - 1\<bar>"
proof -
  have run: "process_dataframe (\<lambda>s. None) unit_frame 8
     = Inr (Some (unit_filled, StrLabel ''Column_8'', containers8))"
    by code_simp
  have total: "container_sum unit_filled containers8 0 = 8 * (1080863910568919 / 9007199254740992)"
    by code_simp
  have "8 * (5 / 1000) < \<bar>8 * (1080863910568919 / 9007199254740992) - (1::rat)\<bar>"
    by simp
  with run total show ?thesis by simp
qed

end
